theory Spec2Isabelle
  imports Main
begin

section \<open>Data model of the disk cache (disk_cache.hpp)\<close>

text \<open>
  Pointers to jobs are modelled as optional job values (\<open>None\<close> is the null pointer),
  a \<open>disk_buffer_holder\<close> as an optional byte buffer (\<open>None\<close> is the empty holder,
  whose \<open>data()\<close> is null), C++ \<open>int\<close> as \<open>int\<close>.  Undefined behaviour of the
  source (an index outside the block array, a null job dereferenced) is the result
  \<open>None\<close> of the operation that would run into it.  \<open>TORRENT_ASSERT\<close> is compiled
  out, as in a release build; the asserted conditions appear as hypotheses of theorems.
\<close>

type_synonym buffer = "nat list"
type_synonym disk_buffer_holder = "buffer option"

text \<open>Modelled from the spec: the hashing primitives (SHA-1 streaming, SHA-256 one-shot)
  are external to the repository's sources; a digest is represented by the bytes it was
  computed from, and the streaming context by the bytes folded into it so far.\<close>

datatype sha1_hash = sha1_zero | sha1_of buffer
datatype sha256_hash = sha256_zero | sha256_of buffer

type_synonym hasher = buffer

definition hasher_init :: hasher where
  "hasher_init = []"

definition hasher_update :: "hasher \<Rightarrow> buffer \<Rightarrow> hasher" where
  "hasher_update h b = h @ b"

definition hasher_final :: "hasher \<Rightarrow> sha1_hash" where
  "hasher_final h = sha1_of h"

definition hasher256 :: "buffer \<Rightarrow> sha256_hash" where
  "hasher256 b = sha256_of b"

text \<open>Modelled from the spec: \<open>default_block_size\<close> is declared outside the given
  sources; the spec fixes it to 16 KiB.\<close>

definition default_block_size :: int where
  "default_block_size = 16384"

datatype piece_location = Piece_location (torrent: int) (piece: int)

definition loc_less :: "piece_location \<Rightarrow> piece_location \<Rightarrow> bool" where
  "loc_less a b = (torrent a < torrent b \<or> (torrent a = torrent b \<and> piece a < piece b))"

text \<open>The storage handle a write job carries: \<open>files().piece_size(p)\<close>, \<open>v1()\<close>, \<open>v2()\<close>.\<close>

record pread_storage =
  piece_size :: "int \<Rightarrow> int"
  v1 :: bool
  v2 :: bool

text \<open>Modelled from the spec: \<open>pread_disk_job\<close> is declared outside the given
  sources; the fields are those of the write-job and hash-job contracts that the cache
  reads and writes.  The variant of the source is split into one type per alternative,
  so \<open>std::get\<close> cannot fail.\<close>

record job_write =
  wj_id :: nat
  wj_storage :: pread_storage
  wj_buf :: disk_buffer_holder
  wj_buffer_size :: int

record job_hash =
  hj_id :: nat
  hj_piece_hash :: sha1_hash
  hj_block_hashes :: "sha256_hash list"

type_synonym job_clear = nat

record cached_block_entry =
  buf_holder :: disk_buffer_holder
  write_job :: "job_write option"
  flushed_to_disk :: bool
  block_hash :: sha256_hash

definition empty_block :: cached_block_entry where
  "empty_block = \<lparr>buf_holder = None, write_job = None, flushed_to_disk = False,
     block_hash = sha256_zero\<rparr>"

text \<open>\<open>cached_block_entry::buf()\<close>: the bytes of the block, \<open>None\<close> when \<open>data()\<close> is null.\<close>

definition buf :: "cached_block_entry \<Rightarrow> buffer option" where
  "buf b = (case buf_holder b of
      Some d \<Rightarrow> Some d
    | None \<Rightarrow> (case write_job b of
        Some j \<Rightarrow> (case wj_buf j of Some d \<Rightarrow> Some (take (nat (wj_buffer_size j)) d) | None \<Rightarrow> None)
      | None \<Rightarrow> None))"

record cached_piece_entry =
  piece :: piece_location
  ready_to_flush :: bool
  hashing :: bool
  flushing :: bool
  piece_hash_returned :: bool
  v1_hashes :: bool
  v2_hashes :: bool
  hasher_cursor :: int
  flushed_cursor :: int
  blocks :: "cached_block_entry list"
  ph :: hasher
  hash_job :: "job_hash option"
  clear_piece :: "job_clear option"

text \<open>The block array is allocated with \<open>blocks_in_piece\<close> elements by the
  constructor and neither is changed afterwards: the field is the length of the array,
  and \<open>get_blocks()\<close> is the whole array.\<close>

definition blocks_in_piece :: "cached_piece_entry \<Rightarrow> int" where
  "blocks_in_piece e = int (length (blocks e))"

definition new_piece_entry :: "piece_location \<Rightarrow> int \<Rightarrow> cached_piece_entry" where
  "new_piece_entry loc num_blocks = \<lparr>piece = loc, ready_to_flush = False, hashing = False,
     flushing = False, piece_hash_returned = False, v1_hashes = False, v2_hashes = False,
     hasher_cursor = 0, flushed_cursor = 0,
     blocks = replicate (nat num_blocks) empty_block, ph = hasher_init,
     hash_job = None, clear_piece = None\<rparr>"

definition cheap_to_flush :: "cached_piece_entry \<Rightarrow> int" where
  "cheap_to_flush e = hasher_cursor e - flushed_cursor e"

text \<open>Element access \<open>blocks[i]\<close> with a C++ \<open>int\<close> index: \<open>None\<close> outside the array.\<close>

definition block_at :: "cached_block_entry list \<Rightarrow> int \<Rightarrow> cached_block_entry option" where
  "block_at bs i = (if 0 \<le> i \<and> i < int (length bs) then Some (bs ! nat i) else None)"

fun have_buffers :: "cached_block_entry list \<Rightarrow> bool" where
  "have_buffers [] = True"
| "have_buffers (b # bs) = (if buf b = None then False else have_buffers bs)"

fun compute_ready_to_flush :: "cached_block_entry list \<Rightarrow> bool" where
  "compute_ready_to_flush [] = True"
| "compute_ready_to_flush (b # bs) =
     (if write_job b = None \<and> \<not> flushed_to_disk b then False else compute_ready_to_flush bs)"

fun compute_flushed_cursor :: "cached_block_entry list \<Rightarrow> int" where
  "compute_flushed_cursor [] = 0"
| "compute_flushed_cursor (b # bs) =
     (if \<not> flushed_to_disk b then 0 else 1 + compute_flushed_cursor bs)"

definition count_jobs :: "cached_block_entry list \<Rightarrow> int" where
  "count_jobs bs = int (length (filter (\<lambda>b. write_job b \<noteq> None) bs))"


section \<open>The multi-index container\<close>

text \<open>
  \<open>piece_container\<close> is one set of entries under four indices.  The entries are kept
  in a map keyed by location (index 3, the hash table, and \<open>find\<close> on index 0); the
  iteration order of each ordered index is a list of locations: \<open>view0\<close> by location,
  \<open>view1\<close> by \<open>cheap_to_flush\<close> descending, \<open>view2\<close> by \<open>ready_to_flush\<close>
  descending.  An iterator is a location, or \<open>None\<close> for \<open>end()\<close>.

  Boost.MultiIndex is a library outside the sources; its ordered non-unique indices
  behave as follows.  A new element is linked after the elements that do not order
  after it (\<open>link_point\<close>); \<open>modify\<close> leaves an element where it is when it still
  fits between its neighbours (\<open>in_place\<close>) and otherwise unlinks and re-links it.
\<close>

record disk_cache =
  m_pieces :: "piece_location \<Rightarrow> cached_piece_entry option"
  view0 :: "piece_location list"
  view1 :: "piece_location list"
  view2 :: "piece_location list"
  m_blocks :: int
  m_flushing_blocks :: int

definition empty_cache :: disk_cache where
  "empty_cache = \<lparr>m_pieces = (\<lambda>_. None), view0 = [], view1 = [], view2 = [],
     m_blocks = 0, m_flushing_blocks = 0\<rparr>"

fun link_point :: "('k \<Rightarrow> 'k \<Rightarrow> bool) \<Rightarrow> (piece_location \<Rightarrow> 'k) \<Rightarrow> piece_location
    \<Rightarrow> piece_location list \<Rightarrow> piece_location list" where
  "link_point lt key x [] = [x]"
| "link_point lt key x (y # ys) =
     (if lt (key x) (key y) then x # y # ys else y # link_point lt key x ys)"

fun in_place :: "('k \<Rightarrow> 'k \<Rightarrow> bool) \<Rightarrow> (piece_location \<Rightarrow> 'k) \<Rightarrow> piece_location
    \<Rightarrow> piece_location list \<Rightarrow> bool" where
  "in_place lt key x [] = True"
| "in_place lt key x [y] = True"
| "in_place lt key x (y # z # zs) =
     (if y = x then \<not> lt (key z) (key x)
      else if z = x then \<not> lt (key x) (key y) \<and> in_place lt key x (z # zs)
      else in_place lt key x (z # zs))"

definition relink :: "('k \<Rightarrow> 'k \<Rightarrow> bool) \<Rightarrow> (piece_location \<Rightarrow> 'k) \<Rightarrow> piece_location
    \<Rightarrow> piece_location list \<Rightarrow> piece_location list" where
  "relink lt key x v =
     (if in_place lt key x v then v else link_point lt key x (remove1 x v))"

text \<open>\<open>std::greater\<close> on the keys of index 1 and index 2.\<close>

definition greater_int :: "int \<Rightarrow> int \<Rightarrow> bool" where
  "greater_int a b = (a > b)"

definition greater_bool :: "bool \<Rightarrow> bool \<Rightarrow> bool" where
  "greater_bool a b = (a \<and> \<not> b)"

definition key1 :: "disk_cache \<Rightarrow> piece_location \<Rightarrow> int" where
  "key1 c l = (case m_pieces c l of Some e \<Rightarrow> cheap_to_flush e | None \<Rightarrow> 0)"

definition key2 :: "disk_cache \<Rightarrow> piece_location \<Rightarrow> bool" where
  "key2 c l = (case m_pieces c l of Some e \<Rightarrow> ready_to_flush e | None \<Rightarrow> False)"

definition find_piece :: "disk_cache \<Rightarrow> piece_location \<Rightarrow> cached_piece_entry option" where
  "find_piece c loc = m_pieces c loc"

text \<open>\<open>view.modify(i, g)\<close>: apply \<open>g\<close> to the entry and restore the order of the
  indices whose key may have changed.\<close>

definition modify :: "piece_location \<Rightarrow> (cached_piece_entry \<Rightarrow> cached_piece_entry)
    \<Rightarrow> disk_cache \<Rightarrow> disk_cache" where
  "modify loc g c =
     (case m_pieces c loc of
        None \<Rightarrow> c
      | Some e \<Rightarrow>
          (let c1 = c\<lparr>m_pieces := (m_pieces c)(loc \<mapsto> g e)\<rparr>
           in c1\<lparr>view1 := relink greater_int (key1 c1) loc (view1 c1),
                 view2 := relink greater_bool (key2 c1) loc (view2 c1)\<rparr>))"

text \<open>A write through a pointer into the block array of an entry: no index is told.\<close>

definition set_blocks :: "piece_location \<Rightarrow> cached_block_entry list \<Rightarrow> disk_cache \<Rightarrow> disk_cache" where
  "set_blocks loc bs c =
     (case m_pieces c loc of
        None \<Rightarrow> c
      | Some e \<Rightarrow> c\<lparr>m_pieces := (m_pieces c)(loc \<mapsto> e\<lparr>blocks := bs\<rparr>)\<rparr>)"

text \<open>\<open>m_pieces.insert(pe)\<close> for a location that is not present.\<close>

definition insert_piece :: "cached_piece_entry \<Rightarrow> disk_cache \<Rightarrow> disk_cache" where
  "insert_piece e c =
     (let c1 = c\<lparr>m_pieces := (m_pieces c)(piece e \<mapsto> e)\<rparr>
      in c1\<lparr>view0 := link_point loc_less (\<lambda>l. l) (piece e) (view0 c1),
            view1 := link_point greater_int (key1 c1) (piece e) (view1 c1),
            view2 := link_point greater_bool (key2 c1) (piece e) (view2 c1)\<rparr>)"

definition erase :: "piece_location \<Rightarrow> disk_cache \<Rightarrow> disk_cache" where
  "erase loc c = c\<lparr>m_pieces := (m_pieces c)(loc := None),
     view0 := remove1 loc (view0 c), view1 := remove1 loc (view1 c),
     view2 := remove1 loc (view2 c)\<rparr>"

text \<open>\<open>++i\<close> on an ordered index: the location after \<open>x\<close>, \<open>None\<close> at the end.\<close>

fun next_in :: "piece_location list \<Rightarrow> piece_location \<Rightarrow> piece_location option" where
  "next_in [] x = None"
| "next_in [y] x = None"
| "next_in (y # z # zs) x = (if y = x then Some z else next_in (z # zs) x)"

definition begin_of :: "piece_location list \<Rightarrow> piece_location option" where
  "begin_of v = (case v of [] \<Rightarrow> None | x # _ \<Rightarrow> Some x)"

definition cache_size :: "disk_cache \<Rightarrow> int" where
  "cache_size c = m_blocks c"

definition num_flushing :: "disk_cache \<Rightarrow> int" where
  "num_flushing c = m_flushing_blocks c"

section \<open>Insert, lookup and hash queries\<close>

text \<open>C++ integer division truncates towards zero.\<close>

definition cdiv :: "int \<Rightarrow> int \<Rightarrow> int" where
  "cdiv a b = sgn a * sgn b * (\<bar>a\<bar> div \<bar>b\<bar>)"

text \<open>The type \<open>int\<close> of the source has 32 bits, and a signed result outside its range
  is undefined.\<close>

definition c_int :: "int \<Rightarrow> int option" where
  "c_int x = (if - 2147483648 \<le> x \<and> x \<le> 2147483647 then Some x else None)"

text \<open>The entry \<open>insert\<close> creates for a location that is not in the cache.  Its number
  of blocks is \<open>(piece_size + default_block_size - 1) / default_block_size\<close> in \<open>int\<close>
  arithmetic; the allocation of the block array throws on a negative number.\<close>

definition first_entry :: "piece_location \<Rightarrow> job_write \<Rightarrow> cached_piece_entry option" where
  "first_entry loc wj =
     (let storage = wj_storage wj
      in case c_int (piece_size storage (piece_location.piece loc)) of
           None \<Rightarrow> None
         | Some a \<Rightarrow>
            (case c_int (a + default_block_size) of
               None \<Rightarrow> None
             | Some b \<Rightarrow>
                (case c_int (b - 1) of
                   None \<Rightarrow> None
                 | Some d \<Rightarrow>
                    (let n = cdiv d default_block_size
                     in if n < 0 then None
                        else Some ((new_piece_entry loc n)\<lparr>v1_hashes := v1 storage,
                                                          v2_hashes := v2 storage\<rparr>)))))"

text \<open>\<open>disk_cache::insert\<close>.  The result is the return value and the cache afterwards.\<close>

definition insert_blk :: "piece_location \<Rightarrow> int \<Rightarrow> job_write \<Rightarrow> disk_cache
    \<Rightarrow> (bool \<times> disk_cache) option" where
  "insert_blk loc block_idx wj c =
     (let c1 = (case find_piece c loc of
                  Some _ \<Rightarrow> Some c
                | None \<Rightarrow>
                    (case first_entry loc wj of
                       None \<Rightarrow> None
                     | Some pe \<Rightarrow> Some (insert_piece pe c)))
      in case c1 of
           None \<Rightarrow> None
         | Some c2 \<Rightarrow>
            (case find_piece c2 loc of
               None \<Rightarrow> None
             | Some e \<Rightarrow>
                (case block_at (blocks e) block_idx of
                   None \<Rightarrow> None
                 | Some blk \<Rightarrow>
                    (let bs = (blocks e)[nat block_idx := blk\<lparr>write_job := Some wj\<rparr>];
                         c3 = (set_blocks loc bs c2)\<lparr>m_blocks := m_blocks c2 + 1\<rparr>;
                         rtf = compute_ready_to_flush bs;
                         c4 = (if rtf \<noteq> ready_to_flush e
                               then modify loc (\<lambda>e. e\<lparr>ready_to_flush := rtf\<rparr>) c3 else c3)
                     in Some (block_idx = 0 \<or> rtf, c4)))))"

datatype hash_result = job_completed | job_queued | post_job

text \<open>\<open>disk_cache::try_hash_piece\<close>.  The hash job is written through its pointer; the
  result carries the job as it is afterwards.\<close>

definition try_hash_piece :: "piece_location \<Rightarrow> job_hash \<Rightarrow> disk_cache
    \<Rightarrow> (hash_result \<times> job_hash \<times> disk_cache) option" where
  "try_hash_piece loc hj c =
     (case find_piece c loc of
        None \<Rightarrow> Some (post_job, hj, c)
      | Some e \<Rightarrow>
          if \<not> hashing e \<and> hasher_cursor e = blocks_in_piece e
          then Some (job_completed, hj\<lparr>hj_piece_hash := hasher_final (ph e)\<rparr>,
                     modify loc (\<lambda>e. e\<lparr>piece_hash_returned := True\<rparr>) c)
          else if hashing e \<and> hasher_cursor e < blocks_in_piece e
          then (if 0 \<le> hasher_cursor e
                then (if have_buffers (drop (nat (hasher_cursor e)) (blocks e))
                      then Some (job_queued, hj, modify loc (\<lambda>e. e\<lparr>hash_job := Some hj\<rparr>) c)
                      else Some (post_job, hj, c))
                else None)
          else Some (post_job, hj, c))"

text \<open>\<open>disk_cache::clear_piece_impl\<close>: the loop over the blocks, then the entry.  The
  loop returns the blocks, the write jobs appended to \<open>aborted\<close> and the new \<open>m_blocks\<close>.\<close>

fun clear_blocks :: "cached_block_entry list \<Rightarrow> job_write list \<Rightarrow> int
    \<Rightarrow> cached_block_entry list \<times> job_write list \<times> int" where
  "clear_blocks [] aborted n = ([], aborted, n)"
| "clear_blocks (cbe # bs) aborted n =
     (case write_job cbe of
        Some j \<Rightarrow>
          (let (bs', aborted', n') = clear_blocks bs (aborted @ [j]) (n - 1)
           in (cbe\<lparr>write_job := None, flushed_to_disk := False, buf_holder := None\<rparr> # bs',
               aborted', n'))
      | None \<Rightarrow>
          (let (bs', aborted', n') = clear_blocks bs aborted n
           in (cbe\<lparr>buf_holder := None\<rparr> # bs', aborted', n')))"

definition clear_piece_impl :: "cached_piece_entry \<Rightarrow> job_write list \<Rightarrow> int
    \<Rightarrow> cached_piece_entry \<times> job_write list \<times> int" where
  "clear_piece_impl cpe aborted n =
     (let (bs', aborted', n') = clear_blocks (blocks cpe) aborted n
      in (cpe\<lparr>blocks := bs', ready_to_flush := False, piece_hash_returned := False,
              hasher_cursor := 0, flushed_cursor := 0, ph := hasher_init\<rparr>, aborted', n'))"

text \<open>\<open>view.modify(i, [&](cached_piece_entry& e) { clear_piece_impl(e, aborted); })\<close>,
  optionally exchanging the parked clear job for null inside the same \<open>modify\<close>.\<close>

definition modify_clear :: "bool \<Rightarrow> piece_location \<Rightarrow> job_write list \<Rightarrow> disk_cache
    \<Rightarrow> (job_write list \<times> disk_cache) option" where
  "modify_clear take_job loc aborted c =
     (case find_piece c loc of
        None \<Rightarrow> None
      | Some e \<Rightarrow>
          (let (e', aborted', n') = clear_piece_impl e aborted (m_blocks c)
           in Some (aborted',
                modify loc (\<lambda>_. if take_job then e'\<lparr>clear_piece := None\<rparr> else e')
                  (c\<lparr>m_blocks := n'\<rparr>))))"

text \<open>\<open>disk_cache::try_clear_piece\<close>: the return value, \<open>aborted\<close> and the cache.\<close>

definition try_clear_piece :: "piece_location \<Rightarrow> job_clear \<Rightarrow> job_write list \<Rightarrow> disk_cache
    \<Rightarrow> (bool \<times> job_write list \<times> disk_cache) option" where
  "try_clear_piece loc j aborted c =
     (case find_piece c loc of
        None \<Rightarrow> Some (True, aborted, c)
      | Some e \<Rightarrow>
          if flushing e
          then Some (False, aborted, modify loc (\<lambda>e. e\<lparr>clear_piece := Some j\<rparr>) c)
          else if hashing e
          then Some (False, aborted, modify loc (\<lambda>e. e\<lparr>clear_piece := Some j\<rparr>) c)
          else (case modify_clear False loc aborted c of
                  None \<Rightarrow> None
                | Some (aborted', c') \<Rightarrow> Some (True, aborted', c')))"

text \<open>\<open>disk_cache::get\<close>: the buffer handed to the reader when the block is resident
  (the call then returns true), \<open>None\<close> inside when it returns false.\<close>

definition get_block :: "piece_location \<Rightarrow> int \<Rightarrow> disk_cache \<Rightarrow> buffer option option" where
  "get_block loc block_idx c =
     (case find_piece c loc of
        None \<Rightarrow> Some None
      | Some e \<Rightarrow>
          (case block_at (blocks e) block_idx of
             None \<Rightarrow> None
           | Some b \<Rightarrow> Some (buf b)))"

text \<open>\<open>disk_cache::hash2\<close>; \<open>fallback\<close> is the value the callback \<open>f()\<close> returns.\<close>

definition hash2 :: "piece_location \<Rightarrow> int \<Rightarrow> sha256_hash \<Rightarrow> disk_cache \<Rightarrow> sha256_hash option" where
  "hash2 loc block_idx fallback c =
     (case find_piece c loc of
        None \<Rightarrow> Some fallback
      | Some e \<Rightarrow>
          if hashing e then Some fallback
          else (case block_at (blocks e) block_idx of
                  None \<Rightarrow> None
                | Some cbe \<Rightarrow>
                    if hasher_cursor e > block_idx then Some (block_hash cbe)
                    else (case buf cbe of
                            Some d \<Rightarrow> Some (hasher256 d)
                          | None \<Rightarrow> Some fallback)))"

datatype access_error = Out_of_bounds

text \<open>\<open>disk_cache::get2\<close>: both blocks are read before anything is tested.  A read
  outside the block array is the error branch.\<close>

definition get2 :: "piece_location \<Rightarrow> int \<Rightarrow> (buffer option \<Rightarrow> buffer option \<Rightarrow> int)
    \<Rightarrow> disk_cache \<Rightarrow> access_error + int" where
  "get2 loc block_idx f c =
     (case find_piece c loc of
        None \<Rightarrow> Inr 0
      | Some e \<Rightarrow>
          (case block_at (blocks e) block_idx of
             None \<Rightarrow> Inl Out_of_bounds
           | Some b1 \<Rightarrow>
              (case block_at (blocks e) (block_idx + 1) of
                 None \<Rightarrow> Inl Out_of_bounds
               | Some b2 \<Rightarrow>
                   (let buf1 = buf b1; buf2 = buf b2
                    in if buf1 = None \<and> buf2 = None then Inr 0 else Inr (f buf1 buf2)))))"


section \<open>Hasher driver\<close>

text \<open>The \<open>while\<close> loop of \<open>kick_hasher\<close>: the buffers of the maximal run of blocks
  with resident data, taken from the blocks at \<open>cursor\<close> onwards.\<close>

fun run_from :: "cached_block_entry list \<Rightarrow> buffer list" where
  "run_from [] = []"
| "run_from (b # bs) = (case buf b of None \<Rightarrow> [] | Some d \<Rightarrow> d # run_from bs)"

text \<open>The unlocked \<open>for\<close> loop over the collected buffers: the SHA-1 context and the
  block hashes of the blocks at \<open>cursor\<close> onwards.\<close>

fun hash_ctx :: "bool \<Rightarrow> buffer list \<Rightarrow> hasher \<Rightarrow> hasher" where
  "hash_ctx need_v1 [] ctx = ctx"
| "hash_ctx need_v1 (d # ds) ctx =
     hash_ctx need_v1 ds (if need_v1 then hasher_update ctx d else ctx)"

fun hash_blocks :: "bool \<Rightarrow> buffer list \<Rightarrow> cached_block_entry list \<Rightarrow> cached_block_entry list" where
  "hash_blocks need_v2 [] bs = bs"
| "hash_blocks need_v2 (d # ds) [] = []"
| "hash_blocks need_v2 (d # ds) (cbe # bs) =
     (if need_v2 then cbe\<lparr>block_hash := hasher256 d\<rparr> else cbe) # hash_blocks need_v2 ds bs"

text \<open>The loop over \<open>get_blocks().subspan(hasher_cursor, i)\<close> after the lock is taken
  again, on the blocks at \<open>hasher_cursor\<close> onwards.\<close>

fun reset_holders :: "nat \<Rightarrow> cached_block_entry list \<Rightarrow> cached_block_entry list" where
  "reset_holders 0 bs = bs"
| "reset_holders (Suc n) [] = []"
| "reset_holders (Suc n) (cbe # bs) = cbe\<lparr>buf_holder := None\<rparr> # reset_holders n bs"

text \<open>Apply \<open>g\<close> to the blocks from index \<open>k\<close> onwards.\<close>

definition on_subspan :: "nat \<Rightarrow> (cached_block_entry list \<Rightarrow> cached_block_entry list)
    \<Rightarrow> cached_block_entry list \<Rightarrow> cached_block_entry list" where
  "on_subspan k g bs = take k bs @ g (drop k bs)"

text \<open>The loop that starts at the label \<open>keep_going\<close> and jumps back to it while the
  block at the cursor has data, with no other thread entering the cache while the mutex
  is released.  The result is the cursor and the cache when the loop is left.\<close>

partial_function (option) keep_going :: "piece_location \<Rightarrow> int \<Rightarrow> disk_cache
    \<Rightarrow> (int \<times> disk_cache) option" where
  "keep_going loc cursor c =
     (case find_piece c loc of
        None \<Rightarrow> None
      | Some e \<Rightarrow>
          if cursor < blocks_in_piece e \<and> cursor < 0 then None
          else
            (let run = (if cursor < blocks_in_piece e
                        then run_from (drop (nat cursor) (blocks e)) else []);
                 i = length run;
                 c1 = modify loc (\<lambda>e. e\<lparr>hashing := True\<rparr>) c;
                 need_v1 = v1_hashes e;
                 need_v2 = v2_hashes e;
                 bs1 = on_subspan (nat cursor) (hash_blocks need_v2 run) (blocks e);
                 cursor' = cursor + int i;
                 bs2 = on_subspan (nat (hasher_cursor e)) (reset_holders i) bs1;
                 c2 = set_blocks loc bs2 c1;
                 c3 = modify loc (\<lambda>e. e\<lparr>ph := hash_ctx need_v1 run (ph e),
                                         hasher_cursor := cursor', hashing := False\<rparr>) c2
             in if cursor' \<noteq> blocks_in_piece e
                then (case block_at bs2 cursor' of
                        None \<Rightarrow> None
                      | Some b \<Rightarrow> if buf b \<noteq> None then keep_going loc cursor' c3
                                  else Some (cursor', c3))
                else Some (cursor', c3)))"

text \<open>The copy loop into \<open>job.block_hashes\<close>.\<close>

definition copy_block_hashes :: "cached_block_entry list \<Rightarrow> sha256_hash list \<Rightarrow> sha256_hash list" where
  "copy_block_hashes bs hs =
     (let to_copy = min (length bs) (length hs)
      in map block_hash (take to_copy bs) @ drop to_copy hs)"

text \<open>\<open>disk_cache::kick_hasher\<close>: the completed-jobs queue and the cache afterwards.\<close>

definition kick_hasher :: "piece_location \<Rightarrow> job_hash list \<Rightarrow> disk_cache
    \<Rightarrow> (job_hash list \<times> disk_cache) option" where
  "kick_hasher loc completed_jobs c =
     (case find_piece c loc of
        None \<Rightarrow> Some (completed_jobs, c)
      | Some e \<Rightarrow>
          if hashing e then Some (completed_jobs, c)
          else
            (case keep_going loc (hasher_cursor e) c of
               None \<Rightarrow> None
             | Some (cursor, c1) \<Rightarrow>
                (case find_piece c1 loc of
                   None \<Rightarrow> None
                 | Some e1 \<Rightarrow>
                    (case hash_job e1 of
                       None \<Rightarrow> Some (completed_jobs, c1)
                     | Some j \<Rightarrow>
                        (let c2 = modify loc (\<lambda>e. e\<lparr>hash_job := None,
                                    ready_to_flush := compute_ready_to_flush (blocks e1)\<rparr>) c1;
                             j1 = j\<lparr>hj_piece_hash := hasher_final (ph e1)\<rparr>;
                             j2 = (if hj_block_hashes j1 \<noteq> []
                                   then j1\<lparr>hj_block_hashes :=
                                          copy_block_hashes (blocks e1) (hj_block_hashes j1)\<rparr>
                                   else j1)
                         in Some (completed_jobs @ [j2], c2))))))"

text \<open>\<open>disk_cache::hash_piece\<close> in its two locked sections: up to the \<open>unlock\<close> before
  the callback, and the \<open>scope_end\<close> after it.  The callback receives the SHA-1 context
  by reference; \<open>ctx'\<close> is the context as the callback leaves it.\<close>

definition hash_piece_lock :: "piece_location \<Rightarrow> disk_cache
    \<Rightarrow> (hasher \<times> int \<times> buffer option list \<times> sha256_hash list) option \<times> disk_cache" where
  "hash_piece_lock loc c =
     (case find_piece c loc of
        None \<Rightarrow> (None, c)
      | Some e \<Rightarrow>
          (Some (ph e, hasher_cursor e, map buf (blocks e), map block_hash (blocks e)),
           modify loc (\<lambda>e. e\<lparr>hashing := True\<rparr>) c))"

definition hash_piece_unlock :: "piece_location \<Rightarrow> hasher \<Rightarrow> disk_cache \<Rightarrow> disk_cache" where
  "hash_piece_unlock loc ctx' c = modify loc (\<lambda>e. e\<lparr>ph := ctx', hashing := False\<rparr>) c"


section \<open>Flush driver\<close>

text \<open>
  The writer callback \<open>f(flushed_blocks, blocks, n)\<close> is a function from the span and
  the integer it is given to the bitfield it leaves and the count it returns.  The mutex
  is released around the callback; what the other threads do to the cache in that
  window is a parameter of the flush operations: a function from the piece that is
  pinned and the cache when the mutex is released to the cache when it is taken again
  (\<open>None\<close> when an operation of theirs is undefined).  With \<open>nobody\<close> no other
  thread enters the cache.  Besides the cache, the operations produce a trace of the
  calls they make to the writer and to \<open>clear_piece_fun\<close>.
\<close>

type_synonym writer = "cached_block_entry list \<Rightarrow> int \<Rightarrow> bool list \<times> int"

type_synonym interference = "piece_location \<Rightarrow> disk_cache \<Rightarrow> disk_cache option"

definition nobody :: interference where
  "nobody loc c = Some c"

record flush_trace =
  writer_calls :: "(piece_location \<times> cached_block_entry list \<times> int) list"
  clear_calls :: "(job_write list \<times> job_clear) list"

definition no_trace :: flush_trace where
  "no_trace = \<lparr>writer_calls = [], clear_calls = []\<rparr>"

definition log_writer :: "piece_location \<Rightarrow> cached_block_entry list \<Rightarrow> int \<Rightarrow> flush_trace
    \<Rightarrow> flush_trace" where
  "log_writer loc bs n t = t\<lparr>writer_calls := writer_calls t @ [(loc, bs, n)]\<rparr>"

definition get_bit :: "bool list \<Rightarrow> nat \<Rightarrow> bool" where
  "get_bit bits i = (i < length bits \<and> bits ! i)"

text \<open>Pinning a piece before the mutex is released, and the \<open>scope_end\<close> that takes the
  mutex again.\<close>

definition flush_pin :: "piece_location \<Rightarrow> int \<Rightarrow> disk_cache \<Rightarrow> disk_cache" where
  "flush_pin loc num_blocks c =
     (modify loc (\<lambda>e. e\<lparr>flushing := True\<rparr>) c)
        \<lparr>m_flushing_blocks := m_flushing_blocks c + num_blocks\<rparr>"

definition flush_unpin :: "piece_location \<Rightarrow> int \<Rightarrow> disk_cache \<Rightarrow> disk_cache" where
  "flush_unpin loc num_blocks c =
     (modify loc (\<lambda>e. e\<lparr>flushing := False\<rparr>) c)
        \<lparr>m_flushing_blocks := m_flushing_blocks c - num_blocks\<rparr>"

text \<open>The loop over the bits of \<open>flushed_blocks\<close>, on the span the writer was given;
  \<open>i\<close> is the index within the span.  A set bit on a block without a write job
  dereferences a null job.\<close>

fun mark_flushed :: "int \<Rightarrow> nat \<Rightarrow> bool list \<Rightarrow> cached_block_entry list
    \<Rightarrow> cached_block_entry list option" where
  "mark_flushed hash_cursor i bits [] = Some []"
| "mark_flushed hash_cursor i bits (blk # bs) =
     (if \<not> get_bit bits i
      then map_option ((#) blk) (mark_flushed hash_cursor (Suc i) bits bs)
      else (case write_job blk of
              None \<Rightarrow> None
            | Some j \<Rightarrow>
                map_option
                  ((#) (blk\<lparr>buf_holder := (if int i < hash_cursor then None else wj_buf j),
                            flushed_to_disk := True, write_job := None\<rparr>))
                  (mark_flushed hash_cursor (Suc i) bits bs)))"

text \<open>The parked clear job, run after a flush pass.\<close>

definition run_parked_clear :: "piece_location \<Rightarrow> disk_cache \<times> flush_trace
    \<Rightarrow> (disk_cache \<times> flush_trace) option" where
  "run_parked_clear loc s =
     (case find_piece (fst s) loc of
        None \<Rightarrow> None
      | Some e \<Rightarrow>
          (case clear_piece e of
             None \<Rightarrow> Some s
           | Some j \<Rightarrow>
               (case modify_clear True loc [] (fst s) of
                  None \<Rightarrow> None
                | Some (aborted, c') \<Rightarrow>
                    Some (c', (snd s)\<lparr>clear_calls := clear_calls (snd s) @ [(aborted, j)]\<rparr>))))"

text \<open>
  The locked section after the callback of a flush pass, which the source repeats in
  the three phases of \<open>flush_to_disk\<close> and in \<open>flush_storage\<close>: mark the blocks of the
  span (the blocks from \<open>offset\<close> onwards), recompute \<open>flushed_cursor\<close> over the span
  and, in phase A only, \<open>ready_to_flush\<close>; subtract the count; run a parked clear.
\<close>

definition flush_finish :: "bool \<Rightarrow> piece_location \<Rightarrow> nat \<Rightarrow> int \<Rightarrow> bool list \<Rightarrow> int
    \<Rightarrow> disk_cache \<times> flush_trace \<Rightarrow> (disk_cache \<times> flush_trace) option" where
  "flush_finish phase_a loc offset hash_cursor bits count s =
     (case find_piece (fst s) loc of
        None \<Rightarrow> None
      | Some e \<Rightarrow>
          (case mark_flushed hash_cursor 0 bits (drop offset (blocks e)) of
             None \<Rightarrow> None
           | Some span \<Rightarrow>
               (let c1 = set_blocks loc (take offset (blocks e) @ span) (fst s);
                    c2 = modify loc (\<lambda>e. if phase_a
                           then e\<lparr>flushed_cursor := compute_flushed_cursor span,
                                  ready_to_flush := compute_ready_to_flush span\<rparr>
                           else e\<lparr>flushed_cursor := compute_flushed_cursor span\<rparr>) c1;
                    c3 = c2\<lparr>m_blocks := m_blocks c2 - count\<rparr>
                in run_parked_clear loc (c3, snd s))))"

text \<open>One flush pass of phase A on the piece at \<open>loc\<close>, from pinning to the parked
  clear.  The result also carries the writer's count and the number of blocks asked.\<close>

definition phase_a_pass_with :: "interference \<Rightarrow> writer \<Rightarrow> piece_location \<Rightarrow> cached_piece_entry
    \<Rightarrow> disk_cache \<times> flush_trace \<Rightarrow> (int \<times> int \<times> disk_cache \<times> flush_trace) option" where
  "phase_a_pass_with others f loc e s =
     (let num_blocks = blocks_in_piece e;
          hash_cursor = hasher_cursor e;
          c1 = flush_pin loc num_blocks (fst s);
          (bits, count) = f (blocks e) hash_cursor;
          t1 = log_writer loc (blocks e) hash_cursor (snd s)
      in case others loc c1 of
           None \<Rightarrow> None
         | Some c1' \<Rightarrow>
             (case flush_finish True loc 0 hash_cursor bits count
                     (flush_unpin loc num_blocks c1', t1) of
                None \<Rightarrow> None
              | Some (c3, t3) \<Rightarrow> Some (count, num_blocks, c3, t3)))"

text \<open>The first loop of \<open>flush_to_disk\<close>, over index 2, from the iterator \<open>it\<close>.  The
  flag of the result says whether \<open>flush_to_disk\<close> returned from inside the loop.\<close>

partial_function (option) phase_a_with :: "interference \<Rightarrow> writer \<Rightarrow> piece_location option
    \<Rightarrow> disk_cache \<times> flush_trace \<Rightarrow> (bool \<times> disk_cache \<times> flush_trace) option" where
  "phase_a_with others f it s =
     (case it of
        None \<Rightarrow> Some (False, s)
      | Some loc \<Rightarrow>
          (case find_piece (fst s) loc of
             None \<Rightarrow> None
           | Some e \<Rightarrow>
               if flushing e then phase_a_with others f (next_in (view2 (fst s)) loc) s
               else if \<not> ready_to_flush e then Some (False, s)
               else
                 (case phase_a_pass_with others f loc e s of
                    None \<Rightarrow> None
                  | Some (count, num_blocks, c3, t3) \<Rightarrow>
                      (case find_piece c3 loc of
                         None \<Rightarrow> None
                       | Some e3 \<Rightarrow>
                           (let it' = next_in (view2 c3) loc;
                                c4 = (if piece_hash_returned e3 then erase loc c3 else c3)
                            in if count < num_blocks then Some (True, c4, t3)
                               else phase_a_with others f it' (c4, t3))))))"

text \<open>One flush pass of phase B: the span is \<open>get_blocks().subspan(flushed_cursor)\<close>,
  and the writer's third argument is \<open>hasher_cursor - flushed_cursor\<close>.\<close>

definition phase_b_pass_with :: "interference \<Rightarrow> writer \<Rightarrow> piece_location \<Rightarrow> cached_piece_entry
    \<Rightarrow> disk_cache \<times> flush_trace \<Rightarrow> (int \<times> int \<times> disk_cache \<times> flush_trace) option" where
  "phase_b_pass_with others f loc e s =
     (let num_blocks = hasher_cursor e - flushed_cursor e
      in if flushed_cursor e < 0 \<or> blocks_in_piece e < flushed_cursor e then None
         else
          (let offset = nat (flushed_cursor e);
               span = drop offset (blocks e);
               c1 = flush_pin loc num_blocks (fst s);
               hash_cursor = hasher_cursor e;
               (bits, count) = f span (hasher_cursor e - flushed_cursor e);
               t1 = log_writer loc span (hasher_cursor e - flushed_cursor e) (snd s)
           in case others loc c1 of
                None \<Rightarrow> None
              | Some c1' \<Rightarrow>
                  (case flush_finish False loc offset hash_cursor bits count
                          (flush_unpin loc num_blocks c1', t1) of
                     None \<Rightarrow> None
                   | Some (c3, t3) \<Rightarrow> Some (count, num_blocks, c3, t3))))"

text \<open>The second loop of \<open>flush_to_disk\<close>, over index 1.  The pass re-links the piece
  in the index the loop iterates over; \<open>++piece_iter\<close> continues from where it is then.\<close>

partial_function (option) phase_b_with :: "interference \<Rightarrow> writer \<Rightarrow> int \<Rightarrow> piece_location option
    \<Rightarrow> disk_cache \<times> flush_trace \<Rightarrow> (bool \<times> disk_cache \<times> flush_trace) option" where
  "phase_b_with others f target_blocks it s =
     (case it of
        None \<Rightarrow> Some (False, s)
      | Some loc \<Rightarrow>
          (case find_piece (fst s) loc of
             None \<Rightarrow> None
           | Some e \<Rightarrow>
               if m_blocks (fst s) - m_flushing_blocks (fst s) \<le> target_blocks
               then Some (True, s)
               else if flushing e
               then phase_b_with others f target_blocks (next_in (view1 (fst s)) loc) s
               else if hasher_cursor e - flushed_cursor e \<le> 0 then Some (False, s)
               else
                 (case phase_b_pass_with others f loc e s of
                    None \<Rightarrow> None
                  | Some (count, num_blocks, c3, t3) \<Rightarrow>
                      if count < num_blocks then Some (True, c3, t3)
                      else phase_b_with others f target_blocks (next_in (view1 c3) loc)
                             (c3, t3))))"

text \<open>One flush pass over the whole block span of a piece with the hasher cursor as
  third argument, as in phase C and in \<open>flush_storage\<close>.\<close>

definition jobs_pass_with :: "interference \<Rightarrow> writer \<Rightarrow> piece_location \<Rightarrow> cached_piece_entry
    \<Rightarrow> disk_cache \<times> flush_trace \<Rightarrow> (int \<times> int \<times> disk_cache \<times> flush_trace) option" where
  "jobs_pass_with others f loc e s =
     (let num_blocks = count_jobs (blocks e);
          c1 = flush_pin loc num_blocks (fst s);
          hash_cursor = hasher_cursor e;
          (bits, count) = f (blocks e) hash_cursor;
          t1 = log_writer loc (blocks e) hash_cursor (snd s)
      in case others loc c1 of
           None \<Rightarrow> None
         | Some c1' \<Rightarrow>
             (case flush_finish False loc 0 hash_cursor bits count
                     (flush_unpin loc num_blocks c1', t1) of
                None \<Rightarrow> None
              | Some (c3, t3) \<Rightarrow> Some (count, num_blocks, c3, t3)))"

text \<open>The third loop of \<open>flush_to_disk\<close>, over index 0, from the iterator \<open>it\<close>.\<close>

partial_function (option) phase_c_with :: "interference \<Rightarrow> writer \<Rightarrow> int \<Rightarrow> piece_location option
    \<Rightarrow> disk_cache \<times> flush_trace \<Rightarrow> (disk_cache \<times> flush_trace) option" where
  "phase_c_with others f target_blocks it s =
     (case it of
        None \<Rightarrow> Some s
      | Some loc \<Rightarrow>
          (case find_piece (fst s) loc of
             None \<Rightarrow> None
           | Some e \<Rightarrow>
               if m_blocks (fst s) - m_flushing_blocks (fst s) \<le> target_blocks then Some s
               else if flushing e
               then phase_c_with others f target_blocks (next_in (view0 (fst s)) loc) s
               else if count_jobs (blocks e) = 0
               then phase_c_with others f target_blocks (next_in (view0 (fst s)) loc) s
               else
                 (case jobs_pass_with others f loc e s of
                    None \<Rightarrow> None
                  | Some (count, num_blocks, c3, t3) \<Rightarrow>
                      if count < num_blocks then Some (c3, t3)
                      else phase_c_with others f target_blocks (next_in (view0 c3) loc)
                             (c3, t3))))"

text \<open>\<open>disk_cache::flush_to_disk\<close>.\<close>

definition flush_to_disk_with :: "interference \<Rightarrow> writer \<Rightarrow> int \<Rightarrow> disk_cache
    \<Rightarrow> (disk_cache \<times> flush_trace) option" where
  "flush_to_disk_with others f target_blocks c =
     (case phase_a_with others f (begin_of (view2 c)) (c, no_trace) of
        None \<Rightarrow> None
      | Some (returned, s1) \<Rightarrow>
          if returned then Some s1
          else
            (case phase_b_with others f target_blocks (begin_of (view1 (fst s1))) s1 of
               None \<Rightarrow> None
             | Some (returned, s2) \<Rightarrow>
                 if returned then Some s2
                 else phase_c_with others f target_blocks (begin_of (view0 (fst s2))) s2))"

text \<open>The flush driver with no other thread in the cache.\<close>

definition phase_a_pass :: "writer \<Rightarrow> piece_location \<Rightarrow> cached_piece_entry
    \<Rightarrow> disk_cache \<times> flush_trace \<Rightarrow> (int \<times> int \<times> disk_cache \<times> flush_trace) option" where
  "phase_a_pass f = phase_a_pass_with nobody f"

definition phase_a :: "writer \<Rightarrow> piece_location option
    \<Rightarrow> disk_cache \<times> flush_trace \<Rightarrow> (bool \<times> disk_cache \<times> flush_trace) option" where
  "phase_a f = phase_a_with nobody f"


definition phase_b :: "writer \<Rightarrow> int \<Rightarrow> piece_location option
    \<Rightarrow> disk_cache \<times> flush_trace \<Rightarrow> (bool \<times> disk_cache \<times> flush_trace) option" where
  "phase_b f = phase_b_with nobody f"

definition jobs_pass :: "writer \<Rightarrow> piece_location \<Rightarrow> cached_piece_entry
    \<Rightarrow> disk_cache \<times> flush_trace \<Rightarrow> (int \<times> int \<times> disk_cache \<times> flush_trace) option" where
  "jobs_pass f = jobs_pass_with nobody f"

definition phase_c :: "writer \<Rightarrow> int \<Rightarrow> piece_location option \<Rightarrow> disk_cache \<times> flush_trace
    \<Rightarrow> (disk_cache \<times> flush_trace) option" where
  "phase_c f = phase_c_with nobody f"

definition flush_to_disk :: "writer \<Rightarrow> int \<Rightarrow> disk_cache \<Rightarrow> (disk_cache \<times> flush_trace) option" where
  "flush_to_disk f = flush_to_disk_with nobody f"

section \<open>Per-storage teardown\<close>

text \<open>The loop of \<open>flush_storage\<close> over the snapshot of piece indices.\<close>

fun flush_storage_loop_with :: "interference \<Rightarrow> writer \<Rightarrow> int \<Rightarrow> int list
    \<Rightarrow> disk_cache \<times> flush_trace \<Rightarrow> (disk_cache \<times> flush_trace) option" where
  "flush_storage_loop_with others f storage [] s = Some s"
| "flush_storage_loop_with others f storage (p # rest) s =
     (let loc = Piece_location storage p
      in case find_piece (fst s) loc of
           None \<Rightarrow> flush_storage_loop_with others f storage rest s
         | Some e \<Rightarrow>
             if flushing e then flush_storage_loop_with others f storage rest s
             else if count_jobs (blocks e) = 0
             then flush_storage_loop_with others f storage rest s
             else
               (case jobs_pass_with others f loc e s of
                  None \<Rightarrow> None
                | Some (count, num_blocks, c3, t3) \<Rightarrow>
                    flush_storage_loop_with others f storage rest (erase loc c3, t3)))"

text \<open>\<open>disk_cache::flush_storage\<close>: the snapshot is the range of index 0 whose
  locations have the torrent \<open>storage\<close>.\<close>

definition flush_storage_with :: "interference \<Rightarrow> writer \<Rightarrow> int \<Rightarrow> disk_cache
    \<Rightarrow> (disk_cache \<times> flush_trace) option" where
  "flush_storage_with others f storage c =
     flush_storage_loop_with others f storage
       (map piece_location.piece (filter (\<lambda>l. torrent l = storage) (view0 c))) (c, no_trace)"

text \<open>Per-storage teardown with no other thread in the cache.\<close>

definition flush_storage_loop :: "writer \<Rightarrow> int \<Rightarrow> int list \<Rightarrow> disk_cache \<times> flush_trace
    \<Rightarrow> (disk_cache \<times> flush_trace) option" where
  "flush_storage_loop f = flush_storage_loop_with nobody f"

definition flush_storage :: "writer \<Rightarrow> int \<Rightarrow> disk_cache \<Rightarrow> (disk_cache \<times> flush_trace) option" where
  "flush_storage f = flush_storage_with nobody f"

section \<open>The invariant checked by the source\<close>

text \<open>The number of block entries with a live write job over all pieces, as
  \<open>check_invariant\<close> counts \<open>dirty_blocks\<close>.\<close>

definition entry_of :: "disk_cache \<Rightarrow> piece_location \<Rightarrow> cached_block_entry list" where
  "entry_of c l = (case m_pieces c l of Some e \<Rightarrow> blocks e | None \<Rightarrow> [])"

definition dirty_blocks :: "disk_cache \<Rightarrow> int" where
  "dirty_blocks c = sum_list (map (\<lambda>l. count_jobs (entry_of c l)) (view2 c))"


section \<open>Traces of operations\<close>

text \<open>A trace is a list of calls made one after the other; \<open>hash_piece\<close> appears as
  its two locked sections, between which other calls can be placed.\<close>

datatype cache_op =
    Insert piece_location int job_write
  | Kick_hasher piece_location
  | Try_hash_piece piece_location job_hash
  | Try_clear_piece piece_location job_clear
  | Hash2 piece_location int sha256_hash
  | Flush_to_disk writer int
  | Flush_storage writer int
  | Hash_piece_lock piece_location
  | Hash_piece_unlock piece_location hasher

fun step :: "cache_op \<Rightarrow> disk_cache \<Rightarrow> disk_cache option" where
  "step (Insert loc i j) c = map_option snd (insert_blk loc i j c)"
| "step (Kick_hasher loc) c = map_option snd (kick_hasher loc [] c)"
| "step (Try_hash_piece loc j) c = map_option (\<lambda>r. snd (snd r)) (try_hash_piece loc j c)"
| "step (Try_clear_piece loc j) c = map_option (\<lambda>r. snd (snd r)) (try_clear_piece loc j [] c)"
| "step (Hash2 loc i fallback) c = map_option (\<lambda>_. c) (hash2 loc i fallback c)"
| "step (Flush_to_disk f target) c = map_option fst (flush_to_disk f target c)"
| "step (Flush_storage f storage) c = map_option fst (flush_storage f storage c)"
| "step (Hash_piece_lock loc) c = Some (snd (hash_piece_lock loc c))"
| "step (Hash_piece_unlock loc ctx) c = Some (hash_piece_unlock loc ctx c)"

fun run :: "cache_op list \<Rightarrow> disk_cache \<Rightarrow> disk_cache option" where
  "run [] c = Some c"
| "run (x # xs) c = (case step x c of None \<Rightarrow> None | Some c' \<Rightarrow> run xs c')"

section \<open>Example inputs\<close>

definition ex_storage :: "int \<Rightarrow> pread_storage" where
  "ex_storage n = \<lparr>piece_size = (\<lambda>_. n * 16384), v1 = True, v2 = False\<rparr>"

definition ex_write :: "int \<Rightarrow> nat \<Rightarrow> job_write" where
  "ex_write n k = \<lparr>wj_id = k, wj_storage = ex_storage n, wj_buf = Some [k], wj_buffer_size = 1\<rparr>"

definition ex_hash :: job_hash where
  "ex_hash = \<lparr>hj_id = 7, hj_piece_hash = sha1_zero, hj_block_hashes = []\<rparr>"

definition ex_loc :: piece_location where
  "ex_loc = Piece_location 0 0"

text \<open>A writer that persists every block of its span that has a write job, and
  returns the number of bits it sets.\<close>

definition write_all :: writer where
  "write_all bs n = (map (\<lambda>b. write_job b \<noteq> None) bs, count_jobs bs)"

text \<open>Observations on a cache, used to state what a trace leaves behind.\<close>

definition counters :: "disk_cache \<Rightarrow> int \<times> int" where
  "counters c = (m_blocks c, dirty_blocks c)"

definition has_piece :: "piece_location \<Rightarrow> disk_cache \<Rightarrow> bool" where
  "has_piece loc c = (find_piece c loc \<noteq> None)"


definition all_written_or_flushed :: "cached_piece_entry \<Rightarrow> bool" where
  "all_written_or_flushed e = list_all (\<lambda>b. write_job b \<noteq> None \<or> flushed_to_disk b) (blocks e)"

definition ready_and_blocks :: "piece_location \<Rightarrow> disk_cache \<Rightarrow> (bool \<times> bool) option" where
  "ready_and_blocks loc c =
     map_option (\<lambda>e. (ready_to_flush e, all_written_or_flushed e)) (find_piece c loc)"

definition cursor_and_size :: "piece_location \<Rightarrow> disk_cache \<Rightarrow> (int \<times> int) option" where
  "cursor_and_size loc c =
     map_option (\<lambda>e. (hasher_cursor e, blocks_in_piece e)) (find_piece c loc)"

definition kick_posts :: "piece_location \<Rightarrow> disk_cache \<Rightarrow> (job_hash list \<times> (int \<times> int) option) option" where
  "kick_posts loc c =
     map_option (\<lambda>r. (fst r, cursor_and_size loc (snd r))) (kick_hasher loc [] c)"





text \<open>The live write jobs of a block array in index order, and what
  \<open>clear_piece_impl\<close> leaves of an entry.\<close>

definition live_jobs :: "cached_block_entry list \<Rightarrow> job_write list" where
  "live_jobs bs = List.map_filter write_job bs"

definition cleared :: "cached_piece_entry \<Rightarrow> bool" where
  "cleared e = (list_all (\<lambda>b. write_job b = None \<and> buf_holder b = None) (blocks e)
     \<and> \<not> ready_to_flush e \<and> \<not> piece_hash_returned e
     \<and> hasher_cursor e = 0 \<and> flushed_cursor e = 0 \<and> ph e = hasher_init)"

text \<open>Example caches: one piece of two blocks, both holding a write job; the same
  piece hashed to the end; the same piece pinned by a flush.\<close>

definition cache_of :: "cached_piece_entry \<Rightarrow> disk_cache" where
  "cache_of e = (insert_piece e empty_cache)\<lparr>m_blocks := count_jobs (blocks e)\<rparr>"

definition ex_blocks :: "cached_block_entry list" where
  "ex_blocks = [empty_block\<lparr>write_job := Some (ex_write 2 1)\<rparr>,
                empty_block\<lparr>write_job := Some (ex_write 2 2)\<rparr>]"

definition ex_entry :: cached_piece_entry where
  "ex_entry = (new_piece_entry ex_loc 2)\<lparr>blocks := ex_blocks, ready_to_flush := True,
     v1_hashes := True\<rparr>"

definition ex_hashed :: cached_piece_entry where
  "ex_hashed = ex_entry\<lparr>hasher_cursor := 2, ph := [1, 2]\<rparr>"

definition ex_hashing :: cached_piece_entry where
  "ex_hashing = ex_entry\<lparr>hashing := True\<rparr>"

definition ex_pinned :: cached_piece_entry where
  "ex_pinned = ex_entry\<lparr>flushing := True\<rparr>"

definition ex_parked :: cached_piece_entry where
  "ex_parked = ex_entry\<lparr>clear_piece := Some 9\<rparr>"

text \<open>Another thread that asks for the piece \<open>target\<close> to be cleared while a flush pass
  on it has released the mutex; the cache that leaves for a piece of two blocks pinned
  by the pass; and the calls to \<open>clear_piece_fun\<close> of a flush, by job ids.\<close>

definition clear_during :: "piece_location \<Rightarrow> job_clear \<Rightarrow> interference" where
  "clear_during target j loc c =
     (if loc = target then map_option (\<lambda>r. snd (snd r)) (try_clear_piece target j [] c)
      else Some c)"

definition clear_log :: "(disk_cache \<times> flush_trace) option \<Rightarrow> (nat list \<times> job_clear) list option" where
  "clear_log r = map_option (\<lambda>s. map (\<lambda>x. (map wj_id (fst x), snd x)) (clear_calls (snd s))) r"

definition ex_window :: "cached_piece_entry \<Rightarrow> disk_cache" where
  "ex_window e = modify ex_loc (\<lambda>e. e\<lparr>clear_piece := Some 9\<rparr>) (flush_pin ex_loc 2 (cache_of e))"

definition ex_reader :: "buffer option \<Rightarrow> buffer option \<Rightarrow> int" where
  "ex_reader b1 b2 = 1"

text \<open>A second piece of the same torrent; what a flush finds of a piece (ready,
  flushing, number of write jobs); the pieces passed to the writer by phase A and by a
  whole call of \<open>flush_to_disk\<close>; what the call leaves of a piece; and two traces: the
  insert of two one-block pieces, and a clear request on the first of them made while
  \<open>hash_piece\<close> holds it.\<close>

definition ex_loc_b :: piece_location where
  "ex_loc_b = Piece_location 0 1"

definition ready_state :: "piece_location \<Rightarrow> disk_cache \<Rightarrow> (bool \<times> bool \<times> int) option" where
  "ready_state loc c =
     map_option (\<lambda>e. (ready_to_flush e, flushing e, count_jobs (blocks e))) (find_piece c loc)"

definition phase_a_calls :: "interference \<Rightarrow> writer \<Rightarrow> disk_cache \<Rightarrow> piece_location list option" where
  "phase_a_calls others f c =
     map_option (\<lambda>r. map fst (writer_calls (snd (snd r))))
       (phase_a_with others f (begin_of (view2 c)) (c, no_trace))"

definition flushed_by :: "interference \<Rightarrow> writer \<Rightarrow> int \<Rightarrow> disk_cache \<Rightarrow> piece_location list option" where
  "flushed_by others f target c =
     map_option (\<lambda>s. map fst (writer_calls (snd s))) (flush_to_disk_with others f target c)"

definition left_by :: "interference \<Rightarrow> writer \<Rightarrow> int \<Rightarrow> piece_location \<Rightarrow> disk_cache
    \<Rightarrow> (bool \<times> bool \<times> int) option" where
  "left_by others f target loc c =
     Option.bind (flush_to_disk_with others f target c) (\<lambda>s. ready_state loc (fst s))"

definition two_ready :: "cache_op list" where
  "two_ready = [Insert ex_loc 0 (ex_write 1 1), Insert ex_loc_b 0 (ex_write 1 2)]"

definition clear_parked :: "cache_op list" where
  "clear_parked = [Hash_piece_lock ex_loc, Try_clear_piece ex_loc 9, Hash_piece_unlock ex_loc hasher_init]"



text \<open>What the flush driver expects of the writer: a bit is set only for a block of
  the span that holds a write job.\<close>

definition sets_bits_on_jobs :: "writer \<Rightarrow> bool" where
  "sets_bits_on_jobs f =
     (\<forall>bs n i. i < length bs \<and> get_bit (fst (f bs n)) i \<longrightarrow> write_job (bs ! i) \<noteq> None)"

text \<open>The writer's count is below the number of blocks of the span.\<close>

definition short_count :: "writer \<Rightarrow> piece_location \<times> cached_block_entry list \<times> int \<Rightarrow> bool" where
  "short_count f x = (snd (f (fst (snd x)) (snd (snd x))) < int (length (fst (snd x))))"

text \<open>Index 2 in order: no piece that is not ready before one that is.\<close>

definition ready_first :: "disk_cache \<Rightarrow> bool" where
  "ready_first c = sorted_wrt (\<lambda>a b. \<not> greater_bool (key2 c b) (key2 c a)) (view2 c)"

text \<open>The state in which phase A is entered: index 2 lists distinct pieces of the cache
  in order, a clear job is parked only on a piece that is flushing, and in a piece
  that is ready every block has a write job or is flushed (the assertion of
  \<open>check_invariant\<close>).\<close>

definition phase_a_inv :: "disk_cache \<Rightarrow> bool" where
  "phase_a_inv c =
     (distinct (view2 c) \<and> (\<forall>l \<in> set (view2 c). find_piece c l \<noteq> None) \<and> ready_first c
      \<and> (\<forall>l e. find_piece c l = Some e \<and> \<not> flushing e \<longrightarrow> clear_piece e = None)
      \<and> (\<forall>l e. find_piece c l = Some e \<and> ready_to_flush e \<longrightarrow> compute_ready_to_flush (blocks e)))"

text \<open>What the first loop of \<open>flush_to_disk\<close> has done when it is left, in terms of the
  writer calls it made over the locations \<open>rest\<close> of index 2: \<open>r\<close> says whether
  \<open>flush_to_disk\<close> returned from the loop, \<open>c'\<close> is the cache then.\<close>

definition phase_a_post :: "writer \<Rightarrow> disk_cache \<Rightarrow> piece_location list \<Rightarrow> bool \<Rightarrow> disk_cache
    \<Rightarrow> (piece_location \<times> cached_block_entry list \<times> int) list \<Rightarrow> bool" where
  "phase_a_post f c rest r c' calls =
     ((\<forall>x \<in> set calls. \<exists>l e. x = (l, blocks e, hasher_cursor e) \<and> l \<in> set rest
          \<and> find_piece c l = Some e \<and> \<not> flushing e \<and> ready_to_flush e
          \<and> (find_piece c' l = None \<longleftrightarrow> piece_hash_returned e))
      \<and> (\<forall>l. l \<notin> fst ` set calls \<longrightarrow> find_piece c' l = find_piece c l)
      \<and> (\<forall>x \<in> set (butlast calls). \<not> short_count f x)
      \<and> (r \<longrightarrow> calls \<noteq> [] \<and> short_count f (last calls))
      \<and> (\<not> r \<longrightarrow> (\<forall>x \<in> set calls. \<not> short_count f x)
            \<and> (\<forall>l \<in> set rest. \<forall>e. find_piece c l = Some e \<and> \<not> flushing e \<and> ready_to_flush e
                  \<longrightarrow> l \<in> fst ` set calls)))"

text \<open>A writer that persists the first block of its span if it has a write job, and
  nothing else.\<close>

definition write_head :: writer where
  "write_head bs n =
     (case bs of [] \<Rightarrow> ([], 0)
      | b # _ \<Rightarrow> if write_job b \<noteq> None then ([True], 1) else ([], 0))"

text \<open>Further example pieces: hashed to the end with the hash returned; four blocks
  of which two are hashed, a third inserted and the last missing.\<close>

definition ex_returned :: cached_piece_entry where
  "ex_returned = ex_hashed\<lparr>piece_hash_returned := True\<rparr>"

definition ex_partial :: cached_piece_entry where
  "ex_partial = (new_piece_entry ex_loc 4)\<lparr>blocks :=
       [empty_block\<lparr>write_job := Some (ex_write 4 1)\<rparr>,
        empty_block\<lparr>write_job := Some (ex_write 4 2)\<rparr>,
        empty_block\<lparr>write_job := Some (ex_write 4 3)\<rparr>, empty_block],
     v1_hashes := True, hasher_cursor := 2, ph := [1, 2]\<rparr>"

declare keep_going.simps [code]
declare phase_a_with.simps [code]
declare phase_b_with.simps [code]
declare phase_c_with.simps [code]

section \<open>Properties\<close>

subsection \<open>The flush driver with no other thread in the cache\<close>

lemma phase_a_pass_eq:
  "phase_a_pass f loc e s =
     (let num_blocks = blocks_in_piece e;
          hash_cursor = hasher_cursor e;
          c1 = flush_pin loc num_blocks (fst s);
          (bits, count) = f (blocks e) hash_cursor;
          t1 = log_writer loc (blocks e) hash_cursor (snd s);
          c2 = flush_unpin loc num_blocks c1
      in case flush_finish True loc 0 hash_cursor bits count (c2, t1) of
           None \<Rightarrow> None
         | Some (c3, t3) \<Rightarrow> Some (count, num_blocks, c3, t3))"
  by (simp add: phase_a_pass_def phase_a_pass_with_def nobody_def Let_def split: prod.splits)



lemma phase_a_unfold:
  "phase_a f it s =
     (case it of
        None \<Rightarrow> Some (False, s)
      | Some loc \<Rightarrow>
          (case find_piece (fst s) loc of
             None \<Rightarrow> None
           | Some e \<Rightarrow>
               if flushing e then phase_a f (next_in (view2 (fst s)) loc) s
               else if \<not> ready_to_flush e then Some (False, s)
               else
                 (case phase_a_pass f loc e s of
                    None \<Rightarrow> None
                  | Some (count, num_blocks, c3, t3) \<Rightarrow>
                      (case find_piece c3 loc of
                         None \<Rightarrow> None
                       | Some e3 \<Rightarrow>
                           (let it' = next_in (view2 c3) loc;
                                c4 = (if piece_hash_returned e3 then erase loc c3 else c3)
                            in if count < num_blocks then Some (True, c4, t3)
                               else phase_a f it' (c4, t3))))))"
  unfolding phase_a_def phase_a_pass_def by (subst phase_a_with.simps) (rule refl)


lemma flush_to_disk_eq:
  "flush_to_disk f target_blocks c =
     (case phase_a f (begin_of (view2 c)) (c, no_trace) of
        None \<Rightarrow> None
      | Some (returned, s1) \<Rightarrow>
          if returned then Some s1
          else
            (case phase_b f target_blocks (begin_of (view1 (fst s1))) s1 of
               None \<Rightarrow> None
             | Some (returned, s2) \<Rightarrow>
                 if returned then Some s2
                 else phase_c f target_blocks (begin_of (view0 (fst s2))) s2))"
  unfolding flush_to_disk_def flush_to_disk_with_def phase_a_def phase_b_def phase_c_def
  by (rule refl)

lemma flush_storage_loop_Nil [simp]: "flush_storage_loop f storage [] s = Some s"
  by (simp add: flush_storage_loop_def)

lemma flush_storage_loop_Cons [simp]:
  "flush_storage_loop f storage (p # rest) s =
     (let loc = Piece_location storage p
      in case find_piece (fst s) loc of
           None \<Rightarrow> flush_storage_loop f storage rest s
         | Some e \<Rightarrow>
             if flushing e then flush_storage_loop f storage rest s
             else if count_jobs (blocks e) = 0 then flush_storage_loop f storage rest s
             else
               (case jobs_pass f loc e s of
                  None \<Rightarrow> None
                | Some (count, num_blocks, c3, t3) \<Rightarrow>
                    flush_storage_loop f storage rest (erase loc c3, t3)))"
  unfolding flush_storage_loop_def jobs_pass_def by (simp only: flush_storage_loop_with.simps)


subsection \<open>The container and the block loops\<close>

lemma find_piece_modify:
  "find_piece (modify loc g c) l =
     (if l = loc then map_option g (find_piece c loc) else find_piece c l)"
  by (auto simp: find_piece_def modify_def Let_def split: option.splits)

lemma m_pieces_modify:
  "m_pieces c loc = Some e \<Longrightarrow> m_pieces (modify loc g c) = (m_pieces c)(loc \<mapsto> g e)"
  by (auto simp: modify_def Let_def split: option.splits)

lemma m_blocks_modify [simp]: "m_blocks (modify loc g c) = m_blocks c"
  by (auto simp: modify_def Let_def split: option.splits)

lemma m_flushing_blocks_modify [simp]: "m_flushing_blocks (modify loc g c) = m_flushing_blocks c"
  by (auto simp: modify_def Let_def split: option.splits)

lemma find_piece_set_blocks:
  "find_piece (set_blocks loc bs c) l =
     (if l = loc then map_option (\<lambda>e. e\<lparr>blocks := bs\<rparr>) (find_piece c loc) else find_piece c l)"
  by (auto simp: find_piece_def set_blocks_def split: option.splits)

lemma m_blocks_set_blocks [simp]: "m_blocks (set_blocks loc bs c) = m_blocks c"
  by (auto simp: set_blocks_def split: option.splits)

lemma m_flushing_blocks_set_blocks [simp]:
  "m_flushing_blocks (set_blocks loc bs c) = m_flushing_blocks c"
  by (auto simp: set_blocks_def split: option.splits)

lemma find_piece_upd [simp]:
  "find_piece (c\<lparr>m_blocks := n\<rparr>) = find_piece c"
  "find_piece (c\<lparr>m_flushing_blocks := n\<rparr>) = find_piece c"
  by (auto simp: find_piece_def fun_eq_iff)

lemma find_piece_insert_piece:
  "find_piece (insert_piece e c) l = (if l = piece e then Some e else find_piece c l)"
  by (auto simp: find_piece_def insert_piece_def Let_def)

lemma m_blocks_insert_piece [simp]: "m_blocks (insert_piece e c) = m_blocks c"
  by (simp add: insert_piece_def Let_def)

lemma find_piece_cache_of:
  "find_piece (cache_of e) l = (if l = piece e then Some e else None)"
  by (simp add: cache_of_def find_piece_insert_piece) (simp add: find_piece_def empty_cache_def)

lemma compute_ready_to_flush_iff:
  "compute_ready_to_flush bs = list_all (\<lambda>b. write_job b \<noteq> None \<or> flushed_to_disk b) bs"
  by (induction bs) auto

lemma piece_first_entry: "first_entry loc wj = Some e \<Longrightarrow> piece e = loc"
  by (auto simp: first_entry_def new_piece_entry_def Let_def split: option.splits if_splits)

lemma piece_ex_entry [simp]:
  "piece ex_entry = ex_loc" "piece ex_hashed = ex_loc" "piece ex_pinned = ex_loc"
  "piece ex_parked = ex_loc"
  by (simp_all add: ex_entry_def ex_hashed_def ex_pinned_def ex_parked_def new_piece_entry_def)


text \<open>
  C1. The number of block entries with a live write job equals \<open>m_blocks\<close> after every
  operation of a trace.  The code does not keep this: a two-block piece is inserted,
  hashed and its hash returned, and both counts are 2; \<open>flush_to_disk\<close> with a writer
  that persists one of the two blocks (and returns 1) then erases the piece in phase A
  because \<open>piece_hash_returned\<close> is set, with one write job still in it.  Afterwards
  no block entry is left, and \<open>m_blocks\<close> is 1.
\<close>

theorem dirty_blocks_lost_on_erase:
  "map_option counters
     (run [Insert ex_loc 0 (ex_write 2 1), Insert ex_loc 1 (ex_write 2 2), Kick_hasher ex_loc,
           Try_hash_piece ex_loc ex_hash] empty_cache) = Some (2, 2)
   \<and> map_option counters
     (run [Insert ex_loc 0 (ex_write 2 1), Insert ex_loc 1 (ex_write 2 2), Kick_hasher ex_loc,
           Try_hash_piece ex_loc ex_hash, Flush_to_disk write_head 0] empty_cache) = Some (1, 0)
   \<and> map_option (has_piece ex_loc)
     (run [Insert ex_loc 0 (ex_write 2 1), Insert ex_loc 1 (ex_write 2 2), Kick_hasher ex_loc,
           Try_hash_piece ex_loc ex_hash, Flush_to_disk write_head 0] empty_cache) = Some False"
  by code_simp

text \<open>
  C2. \<open>ready_to_flush\<close> holds exactly when every block has a write job or is flushed,
  after every operation.  The code does not keep this across \<open>try_clear_piece\<close>: a
  one-block piece is inserted and flushed by \<open>flush_to_disk\<close>; it stays in the cache,
  ready and with its block flushed.  \<open>try_clear_piece\<close> then resets
  \<open>ready_to_flush\<close>, but \<open>clear_piece_impl\<close> resets \<open>flushed_to_disk\<close> only on blocks
  that hold a write job, so the block remains flushed.
\<close>

theorem ready_to_flush_stale_after_clear:
  "Option.bind
     (run [Insert ex_loc 0 (ex_write 1 1), Flush_to_disk write_all 0] empty_cache)
     (ready_and_blocks ex_loc) = Some (True, True)
   \<and> Option.bind
     (run [Insert ex_loc 0 (ex_write 1 1), Flush_to_disk write_all 0,
           Try_clear_piece ex_loc 9] empty_cache)
     (ready_and_blocks ex_loc) = Some (False, True)"
  by code_simp

text \<open>
  C4. \<open>kick_hasher\<close> posts a hung hash job only when \<open>hasher_cursor\<close> has reached
  \<open>blocks_in_piece\<close>.  The code tests only that a job is hung: both blocks of a piece
  are inserted, \<open>try_hash_piece\<close> hangs its job while \<open>hash_piece\<close> has the piece
  pinned, and the piece is cleared.  \<open>kick_hasher\<close> then finds no buffer, leaves the
  cursor at 0 of 2 blocks, and posts the job with the digest of no data.
\<close>

theorem kick_hasher_posts_before_end:
  "Option.bind
     (run [Insert ex_loc 0 (ex_write 2 1), Insert ex_loc 1 (ex_write 2 2),
           Hash_piece_lock ex_loc, Try_hash_piece ex_loc ex_hash,
           Hash_piece_unlock ex_loc hasher_init, Try_clear_piece ex_loc 9] empty_cache)
     (kick_posts ex_loc)
   = Some ([ex_hash\<lparr>hj_piece_hash := sha1_of []\<rparr>], Some (0, 2))"
  by code_simp



subsection \<open>Insert\<close>

lemma insert_blk_present:
  assumes "find_piece c loc = Some e" "block_at (blocks e) block_idx = Some blk"
  shows "\<exists>c'. insert_blk loc block_idx wj c =
       Some (block_idx = 0 \<or> compute_ready_to_flush ((blocks e)[nat block_idx := blk\<lparr>write_job := Some wj\<rparr>]), c')
     \<and> find_piece c' loc = Some (e\<lparr>blocks := (blocks e)[nat block_idx := blk\<lparr>write_job := Some wj\<rparr>],
          ready_to_flush := compute_ready_to_flush ((blocks e)[nat block_idx := blk\<lparr>write_job := Some wj\<rparr>])\<rparr>)
     \<and> m_blocks c' = m_blocks c + 1
     \<and> (\<forall>l. l \<noteq> loc \<longrightarrow> find_piece c' l = find_piece c l)"
  using assms
  by (auto simp: insert_blk_def Let_def find_piece_modify find_piece_set_blocks)

text \<open>
  C6. Let \<open>e0\<close> be the entry of the piece, or the entry \<open>insert\<close> creates when the
  piece is absent (its block count is computed in \<open>int\<close> without overflow and is not
  negative).  If the slot \<open>block_idx\<close> of \<open>e0\<close> exists and is vacant (no write job,
  no held buffer, not flushed) and \<open>block_idx\<close> is at or above both cursors, then
  \<open>insert\<close> leaves the piece in the cache with the write job stored in that slot and
  nothing else of the entry changed but \<open>ready_to_flush\<close>, which is recomputed over all
  blocks; \<open>m_blocks\<close> grows by one; the other pieces are untouched; and the return
  value is \<open>block_idx = 0\<close> or the new \<open>ready_to_flush\<close>.
\<close>

theorem insert_blk_effect:
  assumes e0: "(case find_piece c loc of Some e \<Rightarrow> Some e | None \<Rightarrow> first_entry loc wj) = Some e0"
    and slot: "block_at (blocks e0) block_idx = Some blk"
    and vacant: "write_job blk = None" "buf_holder blk = None" "\<not> flushed_to_disk blk"
    and cursors: "flushed_cursor e0 \<le> block_idx" "hasher_cursor e0 \<le> block_idx"
  shows "\<exists>c' e'. insert_blk loc block_idx wj c = Some (block_idx = 0 \<or> ready_to_flush e', c')
     \<and> find_piece c' loc = Some e'
     \<and> blocks e' = (blocks e0)[nat block_idx := blk\<lparr>write_job := Some wj\<rparr>]
     \<and> ready_to_flush e' = all_written_or_flushed e'
     \<and> e' = e0\<lparr>blocks := blocks e', ready_to_flush := ready_to_flush e'\<rparr>
     \<and> m_blocks c' = m_blocks c + 1
     \<and> (\<forall>l. l \<noteq> loc \<longrightarrow> find_piece c' l = find_piece c l)"
proof (cases "find_piece c loc")
  case (Some e)
  with e0 have "e0 = e" by simp
  with insert_blk_present[OF Some, of block_idx blk wj] slot show ?thesis
    by (auto simp: all_written_or_flushed_def compute_ready_to_flush_iff)
next
  case None
  let ?c1 = "insert_piece e0 c"
  from None e0 have e0': "first_entry loc wj = Some e0" by simp
  have pe: "piece e0 = loc" by (rule piece_first_entry[OF e0'])
  have f1: "find_piece ?c1 loc = Some e0" by (simp add: find_piece_insert_piece pe)
  have eq: "insert_blk loc block_idx wj c = insert_blk loc block_idx wj ?c1"
    using None f1 by (simp add: insert_blk_def Let_def e0')
  from insert_blk_present[OF f1 slot, of wj] obtain c' where
    c': "insert_blk loc block_idx wj ?c1 =
       Some (block_idx = 0 \<or> compute_ready_to_flush ((blocks e0)[nat block_idx := blk\<lparr>write_job := Some wj\<rparr>]), c')"
     "find_piece c' loc = Some (e0\<lparr>blocks := (blocks e0)[nat block_idx := blk\<lparr>write_job := Some wj\<rparr>],
          ready_to_flush := compute_ready_to_flush ((blocks e0)[nat block_idx := blk\<lparr>write_job := Some wj\<rparr>])\<rparr>)"
     "m_blocks c' = m_blocks ?c1 + 1"
     "\<forall>l. l \<noteq> loc \<longrightarrow> find_piece c' l = find_piece ?c1 l"
    by blast
  show ?thesis using c' eq
    by (auto simp: all_written_or_flushed_def compute_ready_to_flush_iff find_piece_insert_piece pe)
qed

lemma first_entry_ex:
  "first_entry ex_loc (ex_write 2 5) =
     Some ((new_piece_entry ex_loc 2)\<lparr>v1_hashes := True, v2_hashes := False\<rparr>)"
  by (simp add: first_entry_def c_int_def ex_write_def ex_storage_def ex_loc_def
      default_block_size_def cdiv_def)

text \<open>The first insert of a two-block piece into the empty cache.\<close>

theorem insert_blk_effect_witness:
  "\<exists>c' e'. insert_blk ex_loc 0 (ex_write 2 5) empty_cache = Some (True, c')
     \<and> find_piece c' ex_loc = Some e'
     \<and> blocks e' = [empty_block\<lparr>write_job := Some (ex_write 2 5)\<rparr>, empty_block]
     \<and> \<not> ready_to_flush e'
     \<and> m_blocks c' = 1"
proof -
  let ?e0 = "(new_piece_entry ex_loc 2)\<lparr>v1_hashes := True, v2_hashes := False\<rparr>"
  have e0: "(case find_piece empty_cache ex_loc of Some e \<Rightarrow> Some e
             | None \<Rightarrow> first_entry ex_loc (ex_write 2 5)) = Some ?e0"
    by (simp add: find_piece_def empty_cache_def first_entry_ex)
  have bl: "blocks ?e0 = [empty_block, empty_block]"
    by (simp add: new_piece_entry_def numeral_2_eq_2)
  have slot: "block_at (blocks ?e0) 0 = Some empty_block"
    by (simp add: bl block_at_def)
  have v: "write_job empty_block = None" "buf_holder empty_block = None"
      "\<not> flushed_to_disk empty_block"
    by (simp_all add: empty_block_def)
  have cu: "flushed_cursor ?e0 \<le> 0" "hasher_cursor ?e0 \<le> 0"
    by (simp_all add: new_piece_entry_def)
  from insert_blk_effect[OF e0 slot v cu]
  obtain c' e' where r: "insert_blk ex_loc 0 (ex_write 2 5) empty_cache = Some (0 = (0::int) \<or> ready_to_flush e', c')"
     "find_piece c' ex_loc = Some e'"
     "blocks e' = (blocks ?e0)[nat 0 := empty_block\<lparr>write_job := Some (ex_write 2 5)\<rparr>]"
     "ready_to_flush e' = all_written_or_flushed e'"
     "m_blocks c' = m_blocks empty_cache + 1"
    by blast
  have "\<not> all_written_or_flushed e'"
    using r(3) by (simp add: all_written_or_flushed_def bl empty_block_def)
  with r show ?thesis by (auto simp: bl empty_cache_def)
qed

text \<open>At the largest piece size an \<open>int\<close> holds, the block count of a new entry is not
  defined, and neither is the insert.\<close>

lemma insert_blk_piece_size_limit:
  "insert_blk ex_loc 0 ((ex_write 2 5)\<lparr>wj_storage := (ex_storage 2)\<lparr>piece_size := \<lambda>_. 2147483647\<rparr>\<rparr>)
     empty_cache = None"
  by (simp add: insert_blk_def first_entry_def c_int_def find_piece_def empty_cache_def
      default_block_size_def Let_def)

subsection \<open>Hash query\<close>

lemma have_buffers_list_all: "have_buffers bs = list_all (\<lambda>b. buf b \<noteq> None) bs"
  by (induction bs) auto

lemma have_buffers_from:
  "have_buffers (drop n bs) \<longleftrightarrow> (\<forall>i. n \<le> i \<and> i < length bs \<longrightarrow> buf (bs ! i) \<noteq> None)"
proof
  assume h: "have_buffers (drop n bs)"
  show "\<forall>i. n \<le> i \<and> i < length bs \<longrightarrow> buf (bs ! i) \<noteq> None"
  proof (intro allI impI)
    fix i assume i: "n \<le> i \<and> i < length bs"
    then have "i - n < length (drop n bs)" by (simp add: less_diff_conv2)
    moreover from h have "\<forall>k<length (drop n bs). buf (drop n bs ! k) \<noteq> None"
      by (simp only: have_buffers_list_all list_all_length)
    ultimately have "buf (drop n bs ! (i - n)) \<noteq> None" by blast
    moreover from i have "drop n bs ! (i - n) = bs ! i" by (simp add: nth_drop)
    ultimately show "buf (bs ! i) \<noteq> None" by simp
  qed
next
  assume h: "\<forall>i. n \<le> i \<and> i < length bs \<longrightarrow> buf (bs ! i) \<noteq> None"
  show "have_buffers (drop n bs)"
    unfolding have_buffers_list_all list_all_length
  proof (intro allI impI)
    fix i assume "i < length (drop n bs)"
    then have r: "n \<le> n + i \<and> n + i < length bs" by simp
    with h have "buf (bs ! (n + i)) \<noteq> None" by blast
    moreover from r have "drop n bs ! i = bs ! (n + i)" by (simp add: nth_drop)
    ultimately show "buf (drop n bs ! i) \<noteq> None" by simp
  qed
qed

text \<open>
  C5. Provided the hasher cursor of the piece is not negative, \<open>try_hash_piece\<close>
  returns \<open>job_completed\<close> exactly when the piece is present, not hashing and hashed
  to the end, and then the job carries the finalised SHA-1 and the piece has
  \<open>piece_hash_returned\<close> set; it returns \<open>job_queued\<close> exactly when the piece is
  present, hashing, not hashed to the end and every block at an index from the hasher
  cursor on has a buffer (\<open>buf()\<close> is not null), and then the job is hung on the piece;
  otherwise it returns \<open>post_job\<close> and the job and the cache are unchanged.
\<close>

theorem try_hash_piece_outcomes:
  assumes "\<forall>e. find_piece c loc = Some e \<longrightarrow> 0 \<le> hasher_cursor e"
  shows "\<exists>r j' c'. try_hash_piece loc hj c = Some (r, j', c')
    \<and> (r = job_completed \<longleftrightarrow>
         (\<exists>e. find_piece c loc = Some e \<and> \<not> hashing e \<and> hasher_cursor e = blocks_in_piece e))
    \<and> (r = job_completed \<longrightarrow>
         (\<exists>e. find_piece c loc = Some e \<and> j' = hj\<lparr>hj_piece_hash := hasher_final (ph e)\<rparr>
            \<and> m_pieces c' = (m_pieces c)(loc \<mapsto> e\<lparr>piece_hash_returned := True\<rparr>)))
    \<and> (r = job_queued \<longleftrightarrow>
         (\<exists>e. find_piece c loc = Some e \<and> hashing e \<and> hasher_cursor e < blocks_in_piece e
            \<and> (\<forall>i. nat (hasher_cursor e) \<le> i \<and> i < length (blocks e)
                  \<longrightarrow> buf (blocks e ! i) \<noteq> None)))
    \<and> (r = job_queued \<longrightarrow>
         (\<exists>e. find_piece c loc = Some e \<and> j' = hj
            \<and> m_pieces c' = (m_pieces c)(loc \<mapsto> e\<lparr>hash_job := Some hj\<rparr>)))
    \<and> (r = post_job \<longrightarrow> j' = hj \<and> c' = c)"
proof (cases "find_piece c loc")
  case None
  then show ?thesis by (simp add: try_hash_piece_def)
next
  case (Some e)
  then have m: "m_pieces c loc = Some e" by (simp add: find_piece_def)
  from Some assms have nn: "0 \<le> hasher_cursor e" by simp
  show ?thesis using Some nn m
    unfolding have_buffers_from[symmetric]
    by (auto simp: try_hash_piece_def m_pieces_modify)
qed

text \<open>A piece hashed to the end: the job is completed with the digest of its data.  A
  piece being hashed whose two blocks both have a buffer: the job is hung on it.\<close>

theorem try_hash_piece_outcomes_witness:
  "find_piece (cache_of ex_hashed) ex_loc = Some ex_hashed \<and> 0 \<le> hasher_cursor ex_hashed
   \<and> (\<exists>c'. try_hash_piece ex_loc ex_hash (cache_of ex_hashed) =
         Some (job_completed, ex_hash\<lparr>hj_piece_hash := sha1_of [1, 2]\<rparr>, c'))
   \<and> find_piece (cache_of ex_hashing) ex_loc = Some ex_hashing
   \<and> buf (blocks ex_hashing ! 0) = Some [1] \<and> buf (blocks ex_hashing ! 1) = Some [2]
   \<and> (\<exists>c'. try_hash_piece ex_loc ex_hash (cache_of ex_hashing) = Some (job_queued, ex_hash, c')
         \<and> m_pieces c' ex_loc = Some (ex_hashing\<lparr>hash_job := Some ex_hash\<rparr>))"
proof -
  have h: "find_piece (cache_of ex_hashed) ex_loc = Some ex_hashed"
    by (simp add: find_piece_cache_of)
  have p: "\<not> hashing ex_hashed" "hasher_cursor ex_hashed = blocks_in_piece ex_hashed"
    "hasher_final (ph ex_hashed) = sha1_of [1, 2]" "0 \<le> hasher_cursor ex_hashed"
    by (simp_all add: ex_hashed_def ex_entry_def ex_blocks_def new_piece_entry_def
        blocks_in_piece_def hasher_final_def)
  have a: "\<forall>e. find_piece (cache_of ex_hashed) ex_loc = Some e \<longrightarrow> 0 \<le> hasher_cursor e"
    using h p(4) by simp
  have h2: "find_piece (cache_of ex_hashing) ex_loc = Some ex_hashing"
    by (simp add: find_piece_cache_of ex_hashing_def ex_entry_def new_piece_entry_def)
  have q: "hashing ex_hashing" "hasher_cursor ex_hashing < blocks_in_piece ex_hashing"
    "hasher_cursor ex_hashing = 0" "length (blocks ex_hashing) = 2"
    by (simp_all add: ex_hashing_def ex_entry_def ex_blocks_def new_piece_entry_def
        blocks_in_piece_def)
  have b: "buf (blocks ex_hashing ! 0) = Some [1]" "buf (blocks ex_hashing ! 1) = Some [2]"
    by (simp_all add: ex_hashing_def ex_entry_def ex_blocks_def buf_def empty_block_def
        ex_write_def)
  have all: "\<forall>i. nat (hasher_cursor ex_hashing) \<le> i \<and> i < length (blocks ex_hashing)
      \<longrightarrow> buf (blocks ex_hashing ! i) \<noteq> None"
    using b by (auto simp: q less_Suc_eq numeral_2_eq_2)
  have a2: "\<forall>e. find_piece (cache_of ex_hashing) ex_loc = Some e \<longrightarrow> 0 \<le> hasher_cursor e"
    using h2 q(3) by simp
  from try_hash_piece_outcomes[OF a, of ex_hash] a h p(1,2,3)
  have one: "\<exists>c'. try_hash_piece ex_loc ex_hash (cache_of ex_hashed) =
         Some (job_completed, ex_hash\<lparr>hj_piece_hash := sha1_of [1, 2]\<rparr>, c')"
    by auto
  from try_hash_piece_outcomes[OF a2, of ex_hash] h2 q(1,2) all
  have two: "\<exists>c'. try_hash_piece ex_loc ex_hash (cache_of ex_hashing) = Some (job_queued, ex_hash, c')
         \<and> m_pieces c' ex_loc = Some (ex_hashing\<lparr>hash_job := Some ex_hash\<rparr>)"
    by auto
  from h p(4) one h2 b two show ?thesis by simp
qed

subsection \<open>Posting a hung hash job\<close>

text \<open>What \<open>kick_hasher\<close> does when it posts: the job that was hung on the piece is
  appended to the queue with the finalised SHA-1 and, if its slice is not empty, with the
  first \<open>min(blocks_in_piece, slice length)\<close> block hashes copied; the piece loses the
  job and has \<open>ready_to_flush\<close> recomputed.\<close>

lemma kick_hasher_posted:
  assumes "kick_hasher loc completed c = Some (completed', c')" "completed' \<noteq> completed"
  shows "\<exists>e0 cursor c1 e1 j. find_piece c loc = Some e0 \<and> \<not> hashing e0
     \<and> keep_going loc (hasher_cursor e0) c = Some (cursor, c1)
     \<and> find_piece c1 loc = Some e1 \<and> hash_job e1 = Some j
     \<and> completed' = completed @
           [j\<lparr>hj_piece_hash := hasher_final (ph e1),
              hj_block_hashes := (if hj_block_hashes j \<noteq> []
                 then map block_hash (take (min (length (blocks e1)) (length (hj_block_hashes j)))
                        (blocks e1))
                      @ drop (min (length (blocks e1)) (length (hj_block_hashes j)))
                          (hj_block_hashes j)
                 else hj_block_hashes j)\<rparr>]
     \<and> find_piece c' loc = Some (e1\<lparr>hash_job := None,
           ready_to_flush := compute_ready_to_flush (blocks e1)\<rparr>)"
proof -
  from assms obtain e0 where e0: "find_piece c loc = Some e0"
    by (cases "find_piece c loc") (auto simp: kick_hasher_def)
  from assms e0 have nh: "\<not> hashing e0" by (auto simp: kick_hasher_def split: if_splits)
  from assms e0 nh obtain cursor c1 where
    kg: "keep_going loc (hasher_cursor e0) c = Some (cursor, c1)"
    by (cases "keep_going loc (hasher_cursor e0) c") (auto simp: kick_hasher_def)
  from assms e0 nh kg obtain e1 where e1: "find_piece c1 loc = Some e1"
    by (cases "find_piece c1 loc") (auto simp: kick_hasher_def)
  from assms e0 nh kg e1 obtain j where j: "hash_job e1 = Some j"
    by (cases "hash_job e1") (auto simp: kick_hasher_def)
  have r: "kick_hasher loc completed c = Some (completed @
           [j\<lparr>hj_piece_hash := hasher_final (ph e1),
              hj_block_hashes := (if hj_block_hashes j \<noteq> []
                 then map block_hash (take (min (length (blocks e1)) (length (hj_block_hashes j)))
                        (blocks e1))
                      @ drop (min (length (blocks e1)) (length (hj_block_hashes j)))
                          (hj_block_hashes j)
                 else hj_block_hashes j)\<rparr>],
           modify loc (\<lambda>e. e\<lparr>hash_job := None,
                 ready_to_flush := compute_ready_to_flush (blocks e1)\<rparr>) c1)"
    using e0 nh kg e1 j by (simp add: kick_hasher_def Let_def copy_block_hashes_def)
  have f: "find_piece (modify loc (\<lambda>e. e\<lparr>hash_job := None,
                 ready_to_flush := compute_ready_to_flush (blocks e1)\<rparr>) c1) loc
      = Some (e1\<lparr>hash_job := None, ready_to_flush := compute_ready_to_flush (blocks e1)\<rparr>)"
    using e1 by (simp add: find_piece_modify)
  from r assms(1) have c': "c' = modify loc (\<lambda>e. e\<lparr>hash_job := None,
                 ready_to_flush := compute_ready_to_flush (blocks e1)\<rparr>) c1"
    and cm: "completed' = completed @
           [j\<lparr>hj_piece_hash := hasher_final (ph e1),
              hj_block_hashes := (if hj_block_hashes j \<noteq> []
                 then map block_hash (take (min (length (blocks e1)) (length (hj_block_hashes j)))
                        (blocks e1))
                      @ drop (min (length (blocks e1)) (length (hj_block_hashes j)))
                          (hj_block_hashes j)
                 else hj_block_hashes j)\<rparr>]"
    by simp_all
  show ?thesis
    apply (rule exI[of _ e0], rule exI[of _ cursor], rule exI[of _ c1], rule exI[of _ e1],
        rule exI[of _ j])
    apply (intro conjI)
    apply (rule e0)
    apply (rule nh)
    apply (rule kg)
    apply (rule e1)
    apply (rule j)
    apply (rule cm)
    apply (simp only: c' f)
    done
qed

subsection \<open>Clear protocol\<close>

lemma clear_blocks_eq:
  "clear_blocks bs ab n =
     (map (\<lambda>b. if write_job b = None then b\<lparr>buf_holder := None\<rparr>
                 else b\<lparr>write_job := None, flushed_to_disk := False, buf_holder := None\<rparr>) bs,
      ab @ live_jobs bs, n - int (length (live_jobs bs)))"
  by (induction bs arbitrary: ab n)
     (auto simp: live_jobs_def List.map_filter_simps split: option.splits)

lemma clear_piece_impl_cleared:
  "clear_piece_impl e ab n = (e', ab', n') \<Longrightarrow>
     cleared e' \<and> ab' = ab @ live_jobs (blocks e) \<and> n' = n - int (length (live_jobs (blocks e)))
     \<and> length (blocks e') = length (blocks e) \<and> clear_piece e' = clear_piece e
     \<and> flushing e' = flushing e \<and> hashing e' = hashing e \<and> hash_job e' = hash_job e"
  by (auto simp: clear_piece_impl_def clear_blocks_eq cleared_def list_all_iff)

lemma modify_clear_effect:
  assumes "find_piece c loc = Some e"
  shows "\<exists>c' e'. modify_clear tk loc ab c = Some (ab @ live_jobs (blocks e), c')
     \<and> find_piece c' loc = Some e' \<and> cleared e'
     \<and> clear_piece e' = (if tk then None else clear_piece e)
     \<and> length (blocks e') = length (blocks e)
     \<and> m_blocks c' = m_blocks c - int (length (live_jobs (blocks e)))
     \<and> m_flushing_blocks c' = m_flushing_blocks c
     \<and> (\<forall>l. l \<noteq> loc \<longrightarrow> find_piece c' l = find_piece c l)"
proof -
  obtain e' ab' n' where r: "clear_piece_impl e ab (m_blocks c) = (e', ab', n')"
    by (cases "clear_piece_impl e ab (m_blocks c)") auto
  note p = clear_piece_impl_cleared[OF r]
  have c1: "cleared (e'\<lparr>clear_piece := None\<rparr>)" using p by (simp add: cleared_def)
  show ?thesis using assms r p c1
    by (auto simp: modify_clear_def find_piece_modify)
qed

lemma try_clear_piece_flushing:
  assumes "find_piece c loc = Some e" "flushing e"
  shows "\<exists>c'. try_clear_piece loc j aborted c = Some (False, aborted, c')
              \<and> m_pieces c' = (m_pieces c)(loc \<mapsto> e\<lparr>clear_piece := Some j\<rparr>)
              \<and> m_blocks c' = m_blocks c \<and> m_flushing_blocks c' = m_flushing_blocks c"
  using assms by (auto simp: try_clear_piece_def m_pieces_modify find_piece_def)

lemma try_clear_piece_unlocked:
  assumes "find_piece c loc = Some e" "\<not> flushing e" "\<not> hashing e"
  shows "\<exists>c' e'. try_clear_piece loc j aborted c = Some (True, aborted @ live_jobs (blocks e), c')
              \<and> find_piece c' loc = Some e' \<and> cleared e'
              \<and> length (blocks e') = length (blocks e)
              \<and> m_blocks c' = m_blocks c - int (length (live_jobs (blocks e)))"
proof -
  from modify_clear_effect[OF assms(1), of False aborted] obtain c' e' where
    "modify_clear False loc aborted c = Some (aborted @ live_jobs (blocks e), c')"
    "find_piece c' loc = Some e'" "cleared e'" "length (blocks e') = length (blocks e)"
    "m_blocks c' = m_blocks c - int (length (live_jobs (blocks e)))"
    by blast
  with assms show ?thesis by (auto simp: try_clear_piece_def)
qed

lemma run_parked_clear_effect:
  assumes "find_piece c loc = Some e" "clear_piece e = Some j"
  shows "\<exists>c' e'. run_parked_clear loc (c, t) =
        Some (c', t\<lparr>clear_calls := clear_calls t @ [(live_jobs (blocks e), j)]\<rparr>)
     \<and> find_piece c' loc = Some e' \<and> cleared e' \<and> clear_piece e' = None
     \<and> length (blocks e') = length (blocks e)
     \<and> m_blocks c' = m_blocks c - int (length (live_jobs (blocks e)))"
  using modify_clear_effect[OF assms(1), of True "[]"] assms
  by (auto simp: run_parked_clear_def)

lemma flush_finish_parked:
  assumes "find_piece (fst s) loc = Some e" "clear_piece e = Some j"
    and "mark_flushed hash_cursor 0 bits (drop offset (blocks e)) = Some span"
  shows "\<exists>c' e'. flush_finish pa loc offset hash_cursor bits count s =
        Some (c', (snd s)\<lparr>clear_calls := clear_calls (snd s)
                 @ [(live_jobs (take offset (blocks e) @ span), j)]\<rparr>)
     \<and> find_piece c' loc = Some e' \<and> cleared e' \<and> clear_piece e' = None
     \<and> length (blocks e') = length (take offset (blocks e) @ span)
     \<and> m_blocks c' = m_blocks (fst s) - count
                       - int (length (live_jobs (take offset (blocks e) @ span)))"
proof -
  let ?bs = "take offset (blocks e) @ span"
  let ?g = "\<lambda>e. if pa then e\<lparr>flushed_cursor := compute_flushed_cursor span,
                                  ready_to_flush := compute_ready_to_flush span\<rparr>
                           else e\<lparr>flushed_cursor := compute_flushed_cursor span\<rparr>"
  let ?c2 = "modify loc ?g (set_blocks loc ?bs (fst s))"
  let ?c3 = "?c2\<lparr>m_blocks := m_blocks ?c2 - count\<rparr>"
  have f3: "find_piece ?c3 loc = Some (?g (e\<lparr>blocks := ?bs\<rparr>))"
    using assms(1) by (simp add: find_piece_modify find_piece_set_blocks)
  have cp: "clear_piece (?g (e\<lparr>blocks := ?bs\<rparr>)) = Some j" using assms(2) by simp
  have bl: "blocks (?g (e\<lparr>blocks := ?bs\<rparr>)) = ?bs" by simp
  from run_parked_clear_effect[OF f3 cp, of "snd s"] bl
  show ?thesis using assms(1,3)
    by (auto simp: flush_finish_def Let_def)
qed

lemma find_piece_flush_pin:
  "find_piece (flush_pin loc n c) l =
     (if l = loc then map_option (\<lambda>e. e\<lparr>flushing := True\<rparr>) (find_piece c loc) else find_piece c l)"
  by (simp add: flush_pin_def find_piece_modify)

lemma find_piece_flush_unpin:
  "find_piece (flush_unpin loc n c) l =
     (if l = loc then map_option (\<lambda>e. e\<lparr>flushing := False\<rparr>) (find_piece c loc) else find_piece c l)"
  by (simp add: flush_unpin_def find_piece_modify)

lemma mark_flushed_length:
  "mark_flushed hc k bits bs = Some sp \<Longrightarrow> length sp = length bs"
  by (induction bs arbitrary: k sp) (auto split: if_splits option.splits)

lemma m_blocks_pin_unpin [simp]:
  "m_blocks (flush_pin loc n c) = m_blocks c" "m_blocks (flush_unpin loc n c) = m_blocks c"
  "m_flushing_blocks (flush_unpin loc n (flush_pin loc n c)) = m_flushing_blocks c"
  by (simp_all add: flush_pin_def flush_unpin_def)

lemma pass_finish_parked:
  assumes "find_piece c1 loc = Some e1" "clear_piece e1 = Some j"
    and "mark_flushed hc 0 bits (drop offset (blocks e1)) = Some sp"
  shows "\<exists>c' e'. flush_finish pa loc offset hc bits count (flush_unpin loc n c1, t) =
        Some (c', t\<lparr>clear_calls := clear_calls t
                 @ [(live_jobs (take offset (blocks e1) @ sp), j)]\<rparr>)
     \<and> find_piece c' loc = Some e' \<and> cleared e' \<and> clear_piece e' = None
     \<and> length (blocks e') = length (blocks e1)
     \<and> m_blocks c' = m_blocks c1 - count
                       - int (length (live_jobs (take offset (blocks e1) @ sp)))"
proof -
  have f: "find_piece (fst (flush_unpin loc n c1, t)) loc = Some (e1\<lparr>flushing := False\<rparr>)"
    using assms(1) by (simp add: find_piece_flush_unpin)
  have len: "length (take offset (blocks e1) @ sp) = length (blocks e1)"
    using mark_flushed_length[OF assms(3)] by simp
  from flush_finish_parked[OF f, of j hc bits offset sp pa count] assms(2,3) len
  show ?thesis by simp
qed

text \<open>
  C7. For a piece that is in the cache: (1) if it is flushing, \<open>try_clear_piece\<close>
  returns false with \<open>aborted\<close> as it was, and the cache differs only in the clear job
  parked on the piece: no block entry, cursor or counter changes.  (2) If it is neither
  flushing nor hashing, \<open>try_clear_piece\<close> returns true, appends the live write jobs
  of the piece to \<open>aborted\<close>, lowers \<open>m_blocks\<close> by their number, and leaves the entry
  cleared: no write job and no held buffer in any slot, \<open>ready_to_flush\<close> and
  \<open>piece_hash_returned\<close> false, both cursors 0, a fresh SHA-1 context.  (3) to (5) A
  flush pass of phase A, of phase B, and of phase C or \<open>flush_storage\<close>: if the pass,
  when it takes the mutex again after the writer's call, finds a clear job parked on the
  piece, then it marks the blocks the writer persisted, clears the entry in the same
  way, takes the parked job off the piece, lowers \<open>m_blocks\<close> by the writer's count and
  by the number of write jobs then still live, and calls \<open>clear_piece_fun\<close> once, with
  those write jobs and the parked job.
\<close>

theorem clear_protocol:
  "(find_piece c loc = Some e \<and> flushing e \<longrightarrow>
      (\<exists>c'. try_clear_piece loc j aborted c = Some (False, aborted, c')
         \<and> m_pieces c' = (m_pieces c)(loc \<mapsto> e\<lparr>clear_piece := Some j\<rparr>)
         \<and> m_blocks c' = m_blocks c \<and> m_flushing_blocks c' = m_flushing_blocks c))
   \<and> (find_piece c loc = Some e \<and> \<not> flushing e \<and> \<not> hashing e \<longrightarrow>
      (\<exists>c' e'. try_clear_piece loc j aborted c = Some (True, aborted @ live_jobs (blocks e), c')
         \<and> find_piece c' loc = Some e' \<and> cleared e'
         \<and> length (blocks e') = length (blocks e)
         \<and> m_blocks c' = m_blocks c - int (length (live_jobs (blocks e)))))
   \<and> (find_piece (fst s) loc = Some e2
        \<and> f (blocks e2) (hasher_cursor e2) = (bits, count)
        \<and> others loc (flush_pin loc (blocks_in_piece e2) (fst s)) = Some c1
        \<and> find_piece c1 loc = Some e3 \<and> clear_piece e3 = Some j2
        \<and> mark_flushed (hasher_cursor e2) 0 bits (blocks e3) = Some span \<longrightarrow>
      (\<exists>c' e'. phase_a_pass_with others f loc e2 s =
            Some (count, blocks_in_piece e2, c',
                  (snd s)\<lparr>writer_calls := writer_calls (snd s) @ [(loc, blocks e2, hasher_cursor e2)],
                          clear_calls := clear_calls (snd s) @ [(live_jobs span, j2)]\<rparr>)
         \<and> find_piece c' loc = Some e' \<and> cleared e' \<and> clear_piece e' = None
         \<and> length (blocks e') = length (blocks e3)
         \<and> m_blocks c' = m_blocks c1 - count - int (length (live_jobs span))))
   \<and> (find_piece (fst s) loc = Some e2
        \<and> 0 \<le> flushed_cursor e2 \<and> flushed_cursor e2 \<le> blocks_in_piece e2
        \<and> f (drop (nat (flushed_cursor e2)) (blocks e2)) (hasher_cursor e2 - flushed_cursor e2)
             = (bits, count)
        \<and> others loc (flush_pin loc (hasher_cursor e2 - flushed_cursor e2) (fst s)) = Some c1
        \<and> find_piece c1 loc = Some e3 \<and> clear_piece e3 = Some j2
        \<and> mark_flushed (hasher_cursor e2) 0 bits (drop (nat (flushed_cursor e2)) (blocks e3))
             = Some span \<longrightarrow>
      (\<exists>c' e'. phase_b_pass_with others f loc e2 s =
            Some (count, hasher_cursor e2 - flushed_cursor e2, c',
                  (snd s)\<lparr>writer_calls := writer_calls (snd s)
                             @ [(loc, drop (nat (flushed_cursor e2)) (blocks e2),
                                 hasher_cursor e2 - flushed_cursor e2)],
                          clear_calls := clear_calls (snd s)
                             @ [(live_jobs (take (nat (flushed_cursor e2)) (blocks e3) @ span), j2)]\<rparr>)
         \<and> find_piece c' loc = Some e' \<and> cleared e' \<and> clear_piece e' = None
         \<and> length (blocks e') = length (blocks e3)
         \<and> m_blocks c' = m_blocks c1 - count
              - int (length (live_jobs (take (nat (flushed_cursor e2)) (blocks e3) @ span)))))
   \<and> (find_piece (fst s) loc = Some e2
        \<and> f (blocks e2) (hasher_cursor e2) = (bits, count)
        \<and> others loc (flush_pin loc (count_jobs (blocks e2)) (fst s)) = Some c1
        \<and> find_piece c1 loc = Some e3 \<and> clear_piece e3 = Some j2
        \<and> mark_flushed (hasher_cursor e2) 0 bits (blocks e3) = Some span \<longrightarrow>
      (\<exists>c' e'. jobs_pass_with others f loc e2 s =
            Some (count, count_jobs (blocks e2), c',
                  (snd s)\<lparr>writer_calls := writer_calls (snd s) @ [(loc, blocks e2, hasher_cursor e2)],
                          clear_calls := clear_calls (snd s) @ [(live_jobs span, j2)]\<rparr>)
         \<and> find_piece c' loc = Some e' \<and> cleared e' \<and> clear_piece e' = None
         \<and> length (blocks e') = length (blocks e3)
         \<and> m_blocks c' = m_blocks c1 - count - int (length (live_jobs span))))"
proof (intro conjI impI)
  assume "find_piece c loc = Some e \<and> flushing e"
  then show "\<exists>c'. try_clear_piece loc j aborted c = Some (False, aborted, c')
         \<and> m_pieces c' = (m_pieces c)(loc \<mapsto> e\<lparr>clear_piece := Some j\<rparr>)
         \<and> m_blocks c' = m_blocks c \<and> m_flushing_blocks c' = m_flushing_blocks c"
    using try_clear_piece_flushing[of c loc e j aborted] by blast
next
  assume "find_piece c loc = Some e \<and> \<not> flushing e \<and> \<not> hashing e"
  then show "\<exists>c' e'. try_clear_piece loc j aborted c = Some (True, aborted @ live_jobs (blocks e), c')
         \<and> find_piece c' loc = Some e' \<and> cleared e'
         \<and> length (blocks e') = length (blocks e)
         \<and> m_blocks c' = m_blocks c - int (length (live_jobs (blocks e)))"
    using try_clear_piece_unlocked[of c loc e j aborted] by blast
next
  assume a: "find_piece (fst s) loc = Some e2
        \<and> f (blocks e2) (hasher_cursor e2) = (bits, count)
        \<and> others loc (flush_pin loc (blocks_in_piece e2) (fst s)) = Some c1
        \<and> find_piece c1 loc = Some e3 \<and> clear_piece e3 = Some j2
        \<and> mark_flushed (hasher_cursor e2) 0 bits (blocks e3) = Some span"
  let ?t1 = "log_writer loc (blocks e2) (hasher_cursor e2) (snd s)"
  from a have m: "mark_flushed (hasher_cursor e2) 0 bits (drop 0 (blocks e3)) = Some span" by simp
  from a pass_finish_parked[OF _ _ m, of c1 loc j2 True count "blocks_in_piece e2" ?t1]
  obtain c' e' where r: "flush_finish True loc 0 (hasher_cursor e2) bits count
        (flush_unpin loc (blocks_in_piece e2) c1, ?t1)
      = Some (c', ?t1\<lparr>clear_calls := clear_calls ?t1 @ [(live_jobs (take 0 (blocks e3) @ span), j2)]\<rparr>)"
    "find_piece c' loc = Some e'" "cleared e'" "clear_piece e' = None"
    "length (blocks e') = length (blocks e3)"
    "m_blocks c' = m_blocks c1 - count - int (length (live_jobs (take 0 (blocks e3) @ span)))"
    by blast
  have "phase_a_pass_with others f loc e2 s =
            Some (count, blocks_in_piece e2, c',
                  (snd s)\<lparr>writer_calls := writer_calls (snd s) @ [(loc, blocks e2, hasher_cursor e2)],
                          clear_calls := clear_calls (snd s) @ [(live_jobs span, j2)]\<rparr>)"
    using a r(1) by (simp add: phase_a_pass_with_def Let_def log_writer_def)
  with r show "\<exists>c' e'. phase_a_pass_with others f loc e2 s =
            Some (count, blocks_in_piece e2, c',
                  (snd s)\<lparr>writer_calls := writer_calls (snd s) @ [(loc, blocks e2, hasher_cursor e2)],
                          clear_calls := clear_calls (snd s) @ [(live_jobs span, j2)]\<rparr>)
         \<and> find_piece c' loc = Some e' \<and> cleared e' \<and> clear_piece e' = None
         \<and> length (blocks e') = length (blocks e3)
         \<and> m_blocks c' = m_blocks c1 - count - int (length (live_jobs span))"
    by simp
next
  assume a: "find_piece (fst s) loc = Some e2
        \<and> 0 \<le> flushed_cursor e2 \<and> flushed_cursor e2 \<le> blocks_in_piece e2
        \<and> f (drop (nat (flushed_cursor e2)) (blocks e2)) (hasher_cursor e2 - flushed_cursor e2)
             = (bits, count)
        \<and> others loc (flush_pin loc (hasher_cursor e2 - flushed_cursor e2) (fst s)) = Some c1
        \<and> find_piece c1 loc = Some e3 \<and> clear_piece e3 = Some j2
        \<and> mark_flushed (hasher_cursor e2) 0 bits (drop (nat (flushed_cursor e2)) (blocks e3))
             = Some span"
  let ?o = "nat (flushed_cursor e2)"
  let ?n = "hasher_cursor e2 - flushed_cursor e2"
  let ?t1 = "log_writer loc (drop ?o (blocks e2)) ?n (snd s)"
  from a have m: "mark_flushed (hasher_cursor e2) 0 bits (drop ?o (blocks e3)) = Some span" by simp
  from a pass_finish_parked[OF _ _ m, of c1 loc j2 False count ?n ?t1]
  obtain c' e' where r: "flush_finish False loc ?o (hasher_cursor e2) bits count
        (flush_unpin loc ?n c1, ?t1)
      = Some (c', ?t1\<lparr>clear_calls := clear_calls ?t1 @ [(live_jobs (take ?o (blocks e3) @ span), j2)]\<rparr>)"
    "find_piece c' loc = Some e'" "cleared e'" "clear_piece e' = None"
    "length (blocks e') = length (blocks e3)"
    "m_blocks c' = m_blocks c1 - count - int (length (live_jobs (take ?o (blocks e3) @ span)))"
    by blast
  have "phase_b_pass_with others f loc e2 s =
            Some (count, ?n, c',
                  (snd s)\<lparr>writer_calls := writer_calls (snd s) @ [(loc, drop ?o (blocks e2), ?n)],
                          clear_calls := clear_calls (snd s)
                             @ [(live_jobs (take ?o (blocks e3) @ span), j2)]\<rparr>)"
    using a r(1) by (simp add: phase_b_pass_with_def Let_def log_writer_def)
  with r show "\<exists>c' e'. phase_b_pass_with others f loc e2 s =
            Some (count, hasher_cursor e2 - flushed_cursor e2, c',
                  (snd s)\<lparr>writer_calls := writer_calls (snd s)
                             @ [(loc, drop (nat (flushed_cursor e2)) (blocks e2),
                                 hasher_cursor e2 - flushed_cursor e2)],
                          clear_calls := clear_calls (snd s)
                             @ [(live_jobs (take (nat (flushed_cursor e2)) (blocks e3) @ span), j2)]\<rparr>)
         \<and> find_piece c' loc = Some e' \<and> cleared e' \<and> clear_piece e' = None
         \<and> length (blocks e') = length (blocks e3)
         \<and> m_blocks c' = m_blocks c1 - count
              - int (length (live_jobs (take (nat (flushed_cursor e2)) (blocks e3) @ span)))"
    by simp
next
  assume a: "find_piece (fst s) loc = Some e2
        \<and> f (blocks e2) (hasher_cursor e2) = (bits, count)
        \<and> others loc (flush_pin loc (count_jobs (blocks e2)) (fst s)) = Some c1
        \<and> find_piece c1 loc = Some e3 \<and> clear_piece e3 = Some j2
        \<and> mark_flushed (hasher_cursor e2) 0 bits (blocks e3) = Some span"
  let ?t1 = "log_writer loc (blocks e2) (hasher_cursor e2) (snd s)"
  from a have m: "mark_flushed (hasher_cursor e2) 0 bits (drop 0 (blocks e3)) = Some span" by simp
  from a pass_finish_parked[OF _ _ m, of c1 loc j2 False count "count_jobs (blocks e2)" ?t1]
  obtain c' e' where r: "flush_finish False loc 0 (hasher_cursor e2) bits count
        (flush_unpin loc (count_jobs (blocks e2)) c1, ?t1)
      = Some (c', ?t1\<lparr>clear_calls := clear_calls ?t1 @ [(live_jobs (take 0 (blocks e3) @ span), j2)]\<rparr>)"
    "find_piece c' loc = Some e'" "cleared e'" "clear_piece e' = None"
    "length (blocks e') = length (blocks e3)"
    "m_blocks c' = m_blocks c1 - count - int (length (live_jobs (take 0 (blocks e3) @ span)))"
    by blast
  have "jobs_pass_with others f loc e2 s =
            Some (count, count_jobs (blocks e2), c',
                  (snd s)\<lparr>writer_calls := writer_calls (snd s) @ [(loc, blocks e2, hasher_cursor e2)],
                          clear_calls := clear_calls (snd s) @ [(live_jobs span, j2)]\<rparr>)"
    using a r(1) by (simp add: jobs_pass_with_def Let_def log_writer_def)
  with r show "\<exists>c' e'. jobs_pass_with others f loc e2 s =
            Some (count, count_jobs (blocks e2), c',
                  (snd s)\<lparr>writer_calls := writer_calls (snd s) @ [(loc, blocks e2, hasher_cursor e2)],
                          clear_calls := clear_calls (snd s) @ [(live_jobs span, j2)]\<rparr>)
         \<and> find_piece c' loc = Some e' \<and> cleared e' \<and> clear_piece e' = None
         \<and> length (blocks e') = length (blocks e3)
         \<and> m_blocks c' = m_blocks c1 - count - int (length (live_jobs span))"
    by simp
qed


lemma piece_ex [simp]: "piece ex_entry = ex_loc" "piece ex_hashed = ex_loc"
  by (simp_all add: ex_hashed_def ex_entry_def new_piece_entry_def)

lemma clear_during_window:
  assumes "piece e = ex_loc"
  shows "clear_during ex_loc 9 ex_loc (flush_pin ex_loc 2 (cache_of e)) = Some (ex_window e)"
    and "find_piece (ex_window e) ex_loc = Some (e\<lparr>flushing := True, clear_piece := Some 9\<rparr>)"
    and "m_blocks (ex_window e) = count_jobs (blocks e)"
proof -
  have fp: "find_piece (flush_pin ex_loc 2 (cache_of e)) ex_loc = Some (e\<lparr>flushing := True\<rparr>)"
    using assms by (simp add: find_piece_flush_pin find_piece_cache_of)
  show "clear_during ex_loc 9 ex_loc (flush_pin ex_loc 2 (cache_of e)) = Some (ex_window e)"
    by (simp add: clear_during_def try_clear_piece_def fp ex_window_def)
  show "find_piece (ex_window e) ex_loc = Some (e\<lparr>flushing := True, clear_piece := Some 9\<rparr>)"
    by (simp add: ex_window_def find_piece_modify fp)
  show "m_blocks (ex_window e) = count_jobs (blocks e)"
    by (simp add: ex_window_def cache_of_def)
qed

text \<open>A clear request on a pinned piece and on an unlocked piece; and a pass of each
  kind on a two-block piece, with a writer that persists the first block, while another
  thread asks for the piece to be cleared during the writer's call.\<close>

theorem clear_protocol_witness:
  "(\<exists>c'. try_clear_piece ex_loc 9 [] (cache_of ex_pinned) = Some (False, [], c')
       \<and> m_pieces c' = (m_pieces (cache_of ex_pinned))(ex_loc \<mapsto> ex_pinned\<lparr>clear_piece := Some 9\<rparr>)
       \<and> m_blocks c' = 2)
   \<and> (\<exists>c'. try_clear_piece ex_loc 9 [] (cache_of ex_entry)
          = Some (True, [ex_write 2 1, ex_write 2 2], c') \<and> m_blocks c' = 0)
   \<and> (\<exists>c'. phase_a_pass_with (clear_during ex_loc 9) write_head ex_loc ex_entry
              (cache_of ex_entry, no_trace)
          = Some (1, 2, c', \<lparr>writer_calls = [(ex_loc, ex_blocks, 0)],
                             clear_calls = [([ex_write 2 2], 9)]\<rparr>)
        \<and> m_blocks c' = 0)
   \<and> (\<exists>c'. phase_b_pass_with (clear_during ex_loc 9) write_head ex_loc ex_hashed
              (cache_of ex_hashed, no_trace)
          = Some (1, 2, c', \<lparr>writer_calls = [(ex_loc, ex_blocks, 2)],
                             clear_calls = [([ex_write 2 2], 9)]\<rparr>)
        \<and> m_blocks c' = 0)
   \<and> (\<exists>c'. jobs_pass_with (clear_during ex_loc 9) write_head ex_loc ex_entry
              (cache_of ex_entry, no_trace)
          = Some (1, 2, c', \<lparr>writer_calls = [(ex_loc, ex_blocks, 0)],
                             clear_calls = [([ex_write 2 2], 9)]\<rparr>)
        \<and> m_blocks c' = 0)"
proof -
  let ?sp = "[empty_block\<lparr>buf_holder := Some [1], flushed_to_disk := True\<rparr>,
              empty_block\<lparr>write_job := Some (ex_write 2 2)\<rparr>]"
  let ?spb = "[empty_block\<lparr>flushed_to_disk := True\<rparr>,
              empty_block\<lparr>write_job := Some (ex_write 2 2)\<rparr>]"
  have h1: "find_piece (cache_of ex_pinned) ex_loc = Some ex_pinned \<and> flushing ex_pinned"
    by (simp add: find_piece_cache_of) (simp add: ex_pinned_def)
  have h2: "find_piece (cache_of ex_entry) ex_loc = Some ex_entry \<and> \<not> flushing ex_entry
      \<and> \<not> hashing ex_entry"
    by (simp add: find_piece_cache_of) (simp add: ex_entry_def new_piece_entry_def)
  have b: "blocks ex_entry = ex_blocks" "blocks ex_pinned = ex_blocks" "blocks ex_hashed = ex_blocks"
    by (simp_all add: ex_entry_def ex_pinned_def ex_hashed_def)
  have n: "blocks_in_piece ex_entry = 2" "count_jobs (blocks ex_entry) = 2"
    "hasher_cursor ex_entry = 0" "hasher_cursor ex_hashed = 2" "flushed_cursor ex_hashed = 0"
    "blocks_in_piece ex_hashed = 2" "count_jobs (blocks ex_hashed) = 2"
    "count_jobs ex_blocks = 2"
    by (simp_all add: blocks_in_piece_def ex_hashed_def ex_entry_def ex_blocks_def
        new_piece_entry_def count_jobs_def empty_block_def)
  have w: "write_head ex_blocks 0 = ([True], 1)" "write_head ex_blocks 2 = ([True], 1)"
    by (simp_all add: write_head_def ex_blocks_def)
  have mk: "mark_flushed 0 0 [True] ex_blocks = Some ?sp"
     "mark_flushed 2 0 [True] ex_blocks = Some ?spb"
    by (simp_all add: ex_blocks_def get_bit_def ex_write_def empty_block_def)
  have l: "live_jobs ex_blocks = [ex_write 2 1, ex_write 2 2]"
     "live_jobs ?sp = [ex_write 2 2]" "live_jobs ?spb = [ex_write 2 2]"
    by (simp_all add: live_jobs_def ex_blocks_def List.map_filter_simps empty_block_def)
  have m: "m_blocks (cache_of ex_pinned) = 2" "m_blocks (cache_of ex_entry) = 2"
    by (simp_all add: cache_of_def ex_pinned_def ex_entry_def ex_blocks_def
        count_jobs_def empty_block_def)
  have h3: "find_piece (fst (cache_of ex_entry, no_trace)) ex_loc = Some ex_entry
        \<and> write_head (blocks ex_entry) (hasher_cursor ex_entry) = ([True], 1)
        \<and> clear_during ex_loc 9 ex_loc
             (flush_pin ex_loc (blocks_in_piece ex_entry) (fst (cache_of ex_entry, no_trace)))
            = Some (ex_window ex_entry)
        \<and> find_piece (ex_window ex_entry) ex_loc
            = Some (ex_entry\<lparr>flushing := True, clear_piece := Some 9\<rparr>)
        \<and> clear_piece (ex_entry\<lparr>flushing := True, clear_piece := Some 9\<rparr>) = Some 9
        \<and> mark_flushed (hasher_cursor ex_entry) 0 [True]
             (blocks (ex_entry\<lparr>flushing := True, clear_piece := Some 9\<rparr>)) = Some ?sp"
    by (simp add: find_piece_cache_of b n w mk clear_during_window)
  have h4: "find_piece (fst (cache_of ex_hashed, no_trace)) ex_loc = Some ex_hashed
        \<and> 0 \<le> flushed_cursor ex_hashed \<and> flushed_cursor ex_hashed \<le> blocks_in_piece ex_hashed
        \<and> write_head (drop (nat (flushed_cursor ex_hashed)) (blocks ex_hashed))
             (hasher_cursor ex_hashed - flushed_cursor ex_hashed) = ([True], 1)
        \<and> clear_during ex_loc 9 ex_loc
             (flush_pin ex_loc (hasher_cursor ex_hashed - flushed_cursor ex_hashed)
                (fst (cache_of ex_hashed, no_trace)))
            = Some (ex_window ex_hashed)
        \<and> find_piece (ex_window ex_hashed) ex_loc
            = Some (ex_hashed\<lparr>flushing := True, clear_piece := Some 9\<rparr>)
        \<and> clear_piece (ex_hashed\<lparr>flushing := True, clear_piece := Some 9\<rparr>) = Some 9
        \<and> mark_flushed (hasher_cursor ex_hashed) 0 [True]
             (drop (nat (flushed_cursor ex_hashed))
                (blocks (ex_hashed\<lparr>flushing := True, clear_piece := Some 9\<rparr>))) = Some ?spb"
    by (simp add: find_piece_cache_of b n w mk clear_during_window)
  have h5: "find_piece (fst (cache_of ex_entry, no_trace)) ex_loc = Some ex_entry
        \<and> write_head (blocks ex_entry) (hasher_cursor ex_entry) = ([True], 1)
        \<and> clear_during ex_loc 9 ex_loc
             (flush_pin ex_loc (count_jobs (blocks ex_entry)) (fst (cache_of ex_entry, no_trace)))
            = Some (ex_window ex_entry)
        \<and> find_piece (ex_window ex_entry) ex_loc
            = Some (ex_entry\<lparr>flushing := True, clear_piece := Some 9\<rparr>)
        \<and> clear_piece (ex_entry\<lparr>flushing := True, clear_piece := Some 9\<rparr>) = Some 9
        \<and> mark_flushed (hasher_cursor ex_entry) 0 [True]
             (blocks (ex_entry\<lparr>flushing := True, clear_piece := Some 9\<rparr>)) = Some ?sp"
    by (simp add: find_piece_cache_of b n w mk clear_during_window)
  have mw: "m_blocks (ex_window ex_entry) = 2" "m_blocks (ex_window ex_hashed) = 2"
    by (simp_all add: clear_during_window n)
  note A = clear_protocol[where c = "cache_of ex_pinned" and loc = ex_loc and e = ex_pinned
      and j = 9 and aborted = "[]" and s = "(cache_of ex_entry, no_trace)"
      and ?e2.0 = ex_entry and f = write_head and bits = "[True]" and count = 1
      and others = "clear_during ex_loc 9" and ?c1.0 = "ex_window ex_entry"
      and ?e3.0 = "ex_entry\<lparr>flushing := True, clear_piece := Some 9\<rparr>" and ?j2.0 = 9
      and span = ?sp]
  note B = clear_protocol[where c = "cache_of ex_entry" and loc = ex_loc and e = ex_entry
      and j = 9 and aborted = "[]" and s = "(cache_of ex_hashed, no_trace)"
      and ?e2.0 = ex_hashed and f = write_head and bits = "[True]" and count = 1
      and others = "clear_during ex_loc 9" and ?c1.0 = "ex_window ex_hashed"
      and ?e3.0 = "ex_hashed\<lparr>flushing := True, clear_piece := Some 9\<rparr>" and ?j2.0 = 9
      and span = ?spb]
  from A[THEN conjunct1] h1 m
  have p1: "\<exists>c'. try_clear_piece ex_loc 9 [] (cache_of ex_pinned) = Some (False, [], c')
       \<and> m_pieces c' = (m_pieces (cache_of ex_pinned))(ex_loc \<mapsto> ex_pinned\<lparr>clear_piece := Some 9\<rparr>)
       \<and> m_blocks c' = 2"
    by auto
  from B[THEN conjunct2, THEN conjunct1] h2 m l b
  have p2: "\<exists>c'. try_clear_piece ex_loc 9 [] (cache_of ex_entry)
          = Some (True, [ex_write 2 1, ex_write 2 2], c') \<and> m_blocks c' = 0"
    by auto
  from A[THEN conjunct2, THEN conjunct2, THEN conjunct1] h3 mw l
  have p3: "\<exists>c'. phase_a_pass_with (clear_during ex_loc 9) write_head ex_loc ex_entry
              (cache_of ex_entry, no_trace)
          = Some (1, 2, c', \<lparr>writer_calls = [(ex_loc, ex_blocks, 0)],
                             clear_calls = [([ex_write 2 2], 9)]\<rparr>)
        \<and> m_blocks c' = 0"
    by (auto simp: no_trace_def n b)
  from B[THEN conjunct2, THEN conjunct2, THEN conjunct2, THEN conjunct1] h4 mw l
  have p4: "\<exists>c'. phase_b_pass_with (clear_during ex_loc 9) write_head ex_loc ex_hashed
              (cache_of ex_hashed, no_trace)
          = Some (1, 2, c', \<lparr>writer_calls = [(ex_loc, ex_blocks, 2)],
                             clear_calls = [([ex_write 2 2], 9)]\<rparr>)
        \<and> m_blocks c' = 0"
    by (auto simp: no_trace_def n b)
  from A[THEN conjunct2, THEN conjunct2, THEN conjunct2, THEN conjunct2] h5 mw l
  have p5: "\<exists>c'. jobs_pass_with (clear_during ex_loc 9) write_head ex_loc ex_entry
              (cache_of ex_entry, no_trace)
          = Some (1, 2, c', \<lparr>writer_calls = [(ex_loc, ex_blocks, 0)],
                             clear_calls = [([ex_write 2 2], 9)]\<rparr>)
        \<and> m_blocks c' = 0"
    by (auto simp: no_trace_def n b)
  from p1 p2 p3 p4 p5 show ?thesis by blast
qed

text \<open>The same in whole calls of \<open>flush_to_disk\<close> and \<open>flush_storage\<close>: the clear
  job parked during the writer's call is run by the call, with the write jobs of the
  blocks that were not persisted; when nobody parks a job, \<open>clear_piece_fun\<close> is not
  called.\<close>

lemma parked_clear_runs_in_flush:
  "clear_log (flush_to_disk_with (clear_during ex_loc 9) write_head 0 (cache_of ex_entry))
     = Some [([2], 9)]
   \<and> clear_log (flush_to_disk_with (clear_during ex_loc 9) write_head 0 (cache_of ex_partial))
     = Some [([2, 3], 9)]
   \<and> clear_log (flush_storage_with (clear_during ex_loc 9) write_head 0 (cache_of ex_entry))
     = Some [([2], 9)]
   \<and> clear_log (flush_to_disk_with nobody write_head 0 (cache_of ex_entry)) = Some []"
  by code_simp

subsection \<open>Reading two blocks\<close>

text \<open>
  C10. When the piece is present, \<open>get2\<close> reads \<open>blocks[block_idx]\<close> and
  \<open>blocks[block_idx + 1]\<close> with no bounds check: both reads stay inside the block
  array exactly when \<open>0 \<le> block_idx\<close> and \<open>block_idx + 1 < blocks_in_piece\<close>, and for
  \<open>block_idx = blocks_in_piece - 1\<close> a read is out of bounds.
\<close>

theorem get2_bounds:
  assumes "find_piece c loc = Some e"
  shows "((\<exists>r. get2 loc block_idx f c = Inr r) \<longleftrightarrow>
            (0 \<le> block_idx \<and> block_idx + 1 < blocks_in_piece e))
         \<and> get2 loc (blocks_in_piece e - 1) f c = Inl Out_of_bounds"
  using assms
  by (auto simp: get2_def block_at_def blocks_in_piece_def Let_def split: option.splits)

text \<open>A two-block piece: index 0 is safe, index 1 reads past the array.\<close>

theorem get2_bounds_witness:
  "find_piece (cache_of ex_entry) ex_loc = Some ex_entry
   \<and> (\<exists>r. get2 ex_loc 0 ex_reader (cache_of ex_entry) = Inr r)
   \<and> get2 ex_loc 1 ex_reader (cache_of ex_entry) = Inl Out_of_bounds"
proof -
  have h: "find_piece (cache_of ex_entry) ex_loc = Some ex_entry"
    by (simp add: find_piece_cache_of)
  have n: "blocks_in_piece ex_entry = 2"
    by (simp add: blocks_in_piece_def ex_entry_def ex_blocks_def)
  from get2_bounds[OF h, of 0 ex_reader] n h show ?thesis by simp
qed

subsection \<open>Flush passes\<close>

lemma find_piece_erase:
  "find_piece (erase loc c) l = (if l = loc then None else find_piece c l)"
  by (simp add: erase_def find_piece_def)

lemma view0_modify [simp]: "view0 (modify loc g c) = view0 c"
  by (auto simp: modify_def Let_def split: option.splits)

lemma view0_set_blocks [simp]: "view0 (set_blocks loc bs c) = view0 c"
  by (auto simp: set_blocks_def split: option.splits)










lemma mark_flushed_Some:
  "(\<forall>i < length bs. get_bit bits (k + i) \<longrightarrow> write_job (bs ! i) \<noteq> None) \<Longrightarrow>
     \<exists>sp. mark_flushed hc k bits bs = Some sp"
proof (induction bs arbitrary: k)
  case Nil
  then show ?case by simp
next
  case (Cons b bs)
  have "\<forall>i < length bs. get_bit bits (Suc k + i) \<longrightarrow> write_job (bs ! i) \<noteq> None"
    using Cons.prems by fastforce
  from Cons.IH[OF this] obtain sp where "mark_flushed hc (Suc k) bits bs = Some sp" by blast
  moreover have "get_bit bits k \<longrightarrow> write_job b \<noteq> None" using Cons.prems by fastforce
  ultimately show ?case by (auto split: option.splits)
qed

lemma mark_flushed_ready:
  "mark_flushed hc k bits bs = Some sp \<Longrightarrow> compute_ready_to_flush sp = compute_ready_to_flush bs"
  by (induction bs arbitrary: k sp) (auto split: if_splits option.splits)

lemma find_piece_pin_unpin:
  "find_piece c loc = Some e \<Longrightarrow>
     find_piece (flush_unpin loc n (flush_pin loc n c)) loc = Some (e\<lparr>flushing := False\<rparr>)"
  by (simp add: find_piece_flush_pin find_piece_flush_unpin)

lemma run_parked_clear_none:
  "find_piece (fst s) loc = Some e \<Longrightarrow> clear_piece e = None \<Longrightarrow> run_parked_clear loc s = Some s"
  by (simp add: run_parked_clear_def)




lemma in_place_sorted:
  "sorted_wrt (\<lambda>a b. \<not> lt (key b) (key a)) v \<Longrightarrow> in_place lt key x v"
  by (induction lt key x v rule: in_place.induct) auto

lemma relink_sorted:
  "sorted_wrt (\<lambda>a b. \<not> lt (key b) (key a)) v \<Longrightarrow> relink lt key x v = v"
  by (simp add: relink_def in_place_sorted)

lemma key2_modify:
  "find_piece c loc = Some e \<Longrightarrow> ready_to_flush (g e) = ready_to_flush e \<Longrightarrow>
     key2 (c\<lparr>m_pieces := (m_pieces c)(loc \<mapsto> g e)\<rparr>) = key2 c"
  by (auto simp: key2_def find_piece_def fun_eq_iff)

lemma view2_modify_keep:
  assumes "find_piece c loc = Some e" "ready_to_flush (g e) = ready_to_flush e" "ready_first c"
  shows "view2 (modify loc g c) = view2 c \<and> key2 (modify loc g c) = key2 c"
proof -
  let ?c1 = "c\<lparr>m_pieces := (m_pieces c)(loc \<mapsto> g e)\<rparr>"
  have k: "key2 ?c1 = key2 c" using key2_modify[of c loc e g] assms(1,2) by simp
  have s: "sorted_wrt (\<lambda>a b. \<not> greater_bool (key2 ?c1 b) (key2 ?c1 a)) (view2 ?c1)"
    using assms(3) by (simp add: k ready_first_def)
  have m: "m_pieces c loc = Some e" using assms(1) by (simp add: find_piece_def)
  have v: "view2 (modify loc g c) = view2 c"
    using m s relink_sorted[of greater_bool "key2 ?c1" "view2 ?c1" loc]
    by (simp add: modify_def Let_def)
  have "key2 (modify loc g c) = key2 ?c1"
    using m by (auto simp: modify_def Let_def key2_def fun_eq_iff)
  with k v show ?thesis by simp
qed

lemma ready_first_cong:
  "view2 c' = view2 c \<Longrightarrow> key2 c' = key2 c \<Longrightarrow> ready_first c' = ready_first c"
  by (simp add: ready_first_def)

lemma view2_set_blocks [simp]: "view2 (set_blocks loc bs c) = view2 c"
  by (auto simp: set_blocks_def split: option.splits)

lemma key2_set_blocks [simp]: "key2 (set_blocks loc bs c) = key2 c"
  by (auto simp: set_blocks_def key2_def fun_eq_iff split: option.splits)

lemma key2_upd [simp]:
  "key2 (c\<lparr>m_blocks := n\<rparr>) = key2 c" "key2 (c\<lparr>m_flushing_blocks := n\<rparr>) = key2 c"
  by (auto simp: key2_def fun_eq_iff)

lemma ready_first_upd [simp]:
  "ready_first (c\<lparr>m_blocks := n\<rparr>) = ready_first c"
  "ready_first (c\<lparr>m_flushing_blocks := n\<rparr>) = ready_first c"
  by (simp_all add: ready_first_def)

text \<open>A step that keeps \<open>ready_to_flush\<close> of the piece keeps index 2 as it is.\<close>

lemma modify_keep:
  assumes "find_piece c loc = Some e" "ready_to_flush (g e) = ready_to_flush e" "ready_first c"
  shows "view2 (modify loc g c) = view2 c" "key2 (modify loc g c) = key2 c"
    "ready_first (modify loc g c)"
  using view2_modify_keep[of c loc e g] assms by (simp_all add: ready_first_def)

lemma pin_keep:
  assumes "find_piece c loc = Some e" "ready_first c"
  shows "view2 (flush_pin loc n c) = view2 c" "key2 (flush_pin loc n c) = key2 c"
    "ready_first (flush_pin loc n c)"
  using modify_keep[of c loc e "\<lambda>e. e\<lparr>flushing := True\<rparr>"] assms
  by (simp_all add: flush_pin_def ready_first_def)

lemma unpin_keep:
  assumes "find_piece c loc = Some e" "ready_first c"
  shows "view2 (flush_unpin loc n c) = view2 c" "key2 (flush_unpin loc n c) = key2 c"
    "ready_first (flush_unpin loc n c)"
  using modify_keep[of c loc e "\<lambda>e. e\<lparr>flushing := False\<rparr>"] assms
  by (simp_all add: flush_unpin_def ready_first_def)

lemma flush_finish_plain_eq:
  assumes "find_piece (fst s) loc = Some e" "clear_piece e = None"
    and "mark_flushed hc 0 bits (drop offset (blocks e)) = Some sp"
  shows "flush_finish pa loc offset hc bits count s =
     Some ((modify loc (\<lambda>e. if pa then e\<lparr>flushed_cursor := compute_flushed_cursor sp,
                                  ready_to_flush := compute_ready_to_flush sp\<rparr>
                           else e\<lparr>flushed_cursor := compute_flushed_cursor sp\<rparr>)
             (set_blocks loc (take offset (blocks e) @ sp) (fst s)))
            \<lparr>m_blocks := m_blocks (fst s) - count\<rparr>, snd s)"
proof -
  let ?bs = "take offset (blocks e) @ sp"
  let ?g = "\<lambda>e. if pa then e\<lparr>flushed_cursor := compute_flushed_cursor sp,
                                  ready_to_flush := compute_ready_to_flush sp\<rparr>
                           else e\<lparr>flushed_cursor := compute_flushed_cursor sp\<rparr>"
  let ?c2 = "modify loc ?g (set_blocks loc ?bs (fst s))"
  let ?c3 = "?c2\<lparr>m_blocks := m_blocks ?c2 - count\<rparr>"
  have f3: "find_piece (fst (?c3, snd s)) loc = Some (?g (e\<lparr>blocks := ?bs\<rparr>))"
    using assms(1) by (simp add: find_piece_modify find_piece_set_blocks)
  have cp: "clear_piece (?g (e\<lparr>blocks := ?bs\<rparr>)) = None" using assms(2) by simp
  from run_parked_clear_none[OF f3 cp]
  show ?thesis using assms(1,3)
    by (auto simp: flush_finish_def Let_def)
qed

lemma phase_a_pass_effect:
  assumes inv: "phase_a_inv c" and hon: "sets_bits_on_jobs f"
    and fp: "find_piece c loc = Some e" and nf: "\<not> flushing e" and rd: "ready_to_flush e"
  shows "\<exists>c3 e3. phase_a_pass f loc e (c, t) =
        Some (snd (f (blocks e) (hasher_cursor e)), blocks_in_piece e, c3,
              log_writer loc (blocks e) (hasher_cursor e) t)
     \<and> view2 c3 = view2 c \<and> find_piece c3 loc = Some e3
     \<and> piece_hash_returned e3 = piece_hash_returned e
     \<and> (\<forall>l. l \<noteq> loc \<longrightarrow> find_piece c3 l = find_piece c l) \<and> phase_a_inv c3"
proof -
  let ?n = "blocks_in_piece e"
  let ?hc = "hasher_cursor e"
  let ?c1 = "flush_pin loc ?n c"
  let ?c2 = "flush_unpin loc ?n ?c1"
  let ?t1 = "log_writer loc (blocks e) ?hc t"
  obtain bits cnt where fr: "f (blocks e) ?hc = (bits, cnt)" by (cases "f (blocks e) ?hc") auto
  from inv have rf: "ready_first c" and cl: "clear_piece e = None"
    and cr: "compute_ready_to_flush (blocks e)"
    using fp nf rd by (auto simp: phase_a_inv_def)
  have f1: "find_piece ?c1 loc = Some (e\<lparr>flushing := True\<rparr>)"
    using fp by (simp add: find_piece_flush_pin)
  note p1 = pin_keep[OF fp rf, of ?n]
  note p2 = unpin_keep[OF f1 p1(3), of ?n]
  have v2: "view2 ?c2 = view2 c" "key2 ?c2 = key2 c" "ready_first ?c2"
    using p1 p2 by simp_all
  have f2: "find_piece (fst (?c2, ?t1)) loc = Some e"
    using find_piece_pin_unpin[OF fp, of ?n] nf by simp
  have fr2: "\<And>l. l \<noteq> loc \<Longrightarrow> find_piece ?c2 l = find_piece c l"
    by (simp add: find_piece_flush_pin find_piece_flush_unpin)
  have "\<forall>i < length (blocks e). get_bit bits (0 + i) \<longrightarrow> write_job (blocks e ! i) \<noteq> None"
    using hon fr unfolding sets_bits_on_jobs_def by (metis add_0 fst_conv)
  from mark_flushed_Some[OF this, of ?hc] obtain sp where
    mf: "mark_flushed ?hc 0 bits (drop 0 (blocks e)) = Some sp" by auto
  from mark_flushed_ready[OF mf] cr have crs: "compute_ready_to_flush sp" by simp
  let ?g = "\<lambda>e. if True then e\<lparr>flushed_cursor := compute_flushed_cursor sp,
                                  ready_to_flush := compute_ready_to_flush sp\<rparr>
                           else e\<lparr>flushed_cursor := compute_flushed_cursor sp\<rparr>"
  let ?cb = "set_blocks loc (take 0 (blocks e) @ sp) ?c2"
  let ?c3 = "(modify loc ?g ?cb)\<lparr>m_blocks := m_blocks ?c2 - cnt\<rparr>"
  let ?e3 = "e\<lparr>blocks := sp, flushed_cursor := compute_flushed_cursor sp, ready_to_flush := True\<rparr>"
  have ff: "flush_finish True loc 0 ?hc bits cnt (?c2, ?t1) = Some (?c3, ?t1)"
    using flush_finish_plain_eq[OF f2 cl mf, of True cnt] by simp
  have fb: "find_piece ?cb loc = Some (e\<lparr>blocks := sp\<rparr>)"
    using f2 by (simp add: find_piece_set_blocks)
  have rfb: "ready_first ?cb" using v2 by (simp add: ready_first_def)
  have kg: "ready_to_flush (?g (e\<lparr>blocks := sp\<rparr>)) = ready_to_flush (e\<lparr>blocks := sp\<rparr>)"
    using crs rd by simp
  note m3 = modify_keep[of ?cb loc "e\<lparr>blocks := sp\<rparr>" ?g, OF fb kg rfb]
  have v3: "view2 ?c3 = view2 c" using m3(1) v2 by simp
  have rf3: "ready_first ?c3" using m3(3) by simp
  have f3: "find_piece ?c3 loc = Some ?e3"
    using fb crs by (simp add: find_piece_modify)
  have fr3: "\<And>l. l \<noteq> loc \<Longrightarrow> find_piece ?c3 l = find_piece c l"
    using fr2 by (simp add: find_piece_modify find_piece_set_blocks)
  have inv3: "phase_a_inv ?c3"
    unfolding phase_a_inv_def
  proof (intro conjI allI impI ballI)
    show "distinct (view2 ?c3)" using inv v3 by (simp add: phase_a_inv_def)
    show "ready_first ?c3" by (rule rf3)
  next
    fix l assume "l \<in> set (view2 ?c3)"
    then have "l \<in> set (view2 c)" using v3 by simp
    then have "find_piece c l \<noteq> None" using inv by (simp add: phase_a_inv_def)
    then show "find_piece ?c3 l \<noteq> None" using f3 fr3[of l] by (cases "l = loc") auto
  next
    fix l e' assume a: "find_piece ?c3 l = Some e' \<and> \<not> flushing e'"
    show "clear_piece e' = None"
    proof (cases "l = loc")
      case True
      with a f3 cl show ?thesis by auto
    next
      case False
      with a fr3[of l] inv show ?thesis by (auto simp: phase_a_inv_def)
    qed
  next
    fix l e' assume a: "find_piece ?c3 l = Some e' \<and> ready_to_flush e'"
    show "compute_ready_to_flush (blocks e')"
    proof (cases "l = loc")
      case True
      with a f3 crs show ?thesis by auto
    next
      case False
      with a fr3[of l] inv show ?thesis by (auto simp: phase_a_inv_def)
    qed
  qed
  have "phase_a_pass f loc e (c, t) = Some (cnt, ?n, ?c3, ?t1)"
    using fr ff by (simp add: phase_a_pass_eq Let_def)
  with fr v3 f3 fr3 inv3 show ?thesis by auto
qed

lemma sorted_wrt_remove1: "sorted_wrt P xs \<Longrightarrow> sorted_wrt P (remove1 x xs)"
  by (induction xs) (auto dest: notin_set_remove1)

lemma key2_erase: "l \<noteq> loc \<Longrightarrow> key2 (erase loc c) l = key2 c l"
  by (simp add: key2_def erase_def)

lemma view2_erase [simp]: "view2 (erase loc c) = remove1 loc (view2 c)"
  by (simp add: erase_def)

lemma phase_a_inv_erase:
  assumes "phase_a_inv c"
  shows "phase_a_inv (erase loc c)"
  unfolding phase_a_inv_def
proof (intro conjI allI impI ballI)
  from assms have d: "distinct (view2 c)" by (simp add: phase_a_inv_def)
  then show "distinct (view2 (erase loc c))" by simp
  from assms have "sorted_wrt (\<lambda>a b. \<not> greater_bool (key2 c b) (key2 c a)) (view2 c)"
    by (simp add: phase_a_inv_def ready_first_def)
  then have "sorted_wrt (\<lambda>a b. \<not> greater_bool (key2 c b) (key2 c a)) (remove1 loc (view2 c))"
    by (rule sorted_wrt_remove1)
  then have "sorted_wrt (\<lambda>a b. \<not> greater_bool (key2 (erase loc c) b) (key2 (erase loc c) a))
      (remove1 loc (view2 c))"
  proof (rule sorted_wrt_mono_rel[rotated])
    fix a b assume "a \<in> set (remove1 loc (view2 c))" "b \<in> set (remove1 loc (view2 c))"
      "\<not> greater_bool (key2 c b) (key2 c a)"
    moreover from this d have "a \<noteq> loc" "b \<noteq> loc" by auto
    ultimately show "\<not> greater_bool (key2 (erase loc c) b) (key2 (erase loc c) a)"
      by (simp add: key2_erase)
  qed
  then show "ready_first (erase loc c)" by (simp add: ready_first_def)
next
  fix l assume "l \<in> set (view2 (erase loc c))"
  moreover from assms have "distinct (view2 c)" by (simp add: phase_a_inv_def)
  ultimately have "l \<noteq> loc" "l \<in> set (view2 c)" by auto
  with assms show "find_piece (erase loc c) l \<noteq> None"
    by (simp add: find_piece_erase phase_a_inv_def)
next
  fix l e assume "find_piece (erase loc c) l = Some e \<and> \<not> flushing e"
  with assms show "clear_piece e = None"
    by (auto simp: find_piece_erase phase_a_inv_def split: if_splits)
next
  fix l e assume "find_piece (erase loc c) l = Some e \<and> ready_to_flush e"
  with assms show "compute_ready_to_flush (blocks e)"
    by (auto simp: find_piece_erase phase_a_inv_def split: if_splits)
qed

lemma next_in_mid:
  "distinct (pre @ x # rest) \<Longrightarrow> next_in (pre @ x # rest) x = begin_of rest"
proof (induction pre)
  case Nil
  then show ?case by (cases rest) (auto simp: begin_of_def)
next
  case (Cons a pre)
  then have "a \<noteq> x" by auto
  moreover obtain y ys where "pre @ x # rest = y # ys" by (cases pre) auto
  ultimately show ?case using Cons by auto
qed

lemma phase_a_postD:
  assumes "phase_a_post f c rest r c' calls"
  shows "\<forall>y \<in> set calls. \<exists>l e. y = (l, blocks e, hasher_cursor e) \<and> l \<in> set rest
          \<and> find_piece c l = Some e \<and> \<not> flushing e \<and> ready_to_flush e
          \<and> (find_piece c' l = None \<longleftrightarrow> piece_hash_returned e)"
    and "\<forall>l. l \<notin> fst ` set calls \<longrightarrow> find_piece c' l = find_piece c l"
    and "\<forall>y \<in> set (butlast calls). \<not> short_count f y"
    and "r \<longrightarrow> calls \<noteq> [] \<and> short_count f (last calls)"
    and "\<not> r \<longrightarrow> (\<forall>y \<in> set calls. \<not> short_count f y)
            \<and> (\<forall>l \<in> set rest. \<forall>e. find_piece c l = Some e \<and> \<not> flushing e \<and> ready_to_flush e
                  \<longrightarrow> l \<in> fst ` set calls)"
  using assms unfolding phase_a_post_def by blast+

lemma phase_a_postI:
  assumes "\<forall>y \<in> set calls. \<exists>l e. y = (l, blocks e, hasher_cursor e) \<and> l \<in> set rest
          \<and> find_piece c l = Some e \<and> \<not> flushing e \<and> ready_to_flush e
          \<and> (find_piece c' l = None \<longleftrightarrow> piece_hash_returned e)"
    and "\<forall>l. l \<notin> fst ` set calls \<longrightarrow> find_piece c' l = find_piece c l"
    and "\<forall>y \<in> set (butlast calls). \<not> short_count f y"
    and "r \<longrightarrow> calls \<noteq> [] \<and> short_count f (last calls)"
    and "\<not> r \<longrightarrow> (\<forall>y \<in> set calls. \<not> short_count f y)
            \<and> (\<forall>l \<in> set rest. \<forall>e. find_piece c l = Some e \<and> \<not> flushing e \<and> ready_to_flush e
                  \<longrightarrow> l \<in> fst ` set calls)"
  shows "phase_a_post f c rest r c' calls"
  unfolding phase_a_post_def using assms by (intro conjI) assumption+

lemma post_skip:
  assumes p: "phase_a_post f c rest r c' calls" and fe: "find_piece c x = Some e" "flushing e"
  shows "phase_a_post f c (x # rest) r c' calls"
proof (rule phase_a_postI)
  note d = phase_a_postD[OF p]
  show "\<forall>y \<in> set calls. \<exists>l e. y = (l, blocks e, hasher_cursor e) \<and> l \<in> set (x # rest)
          \<and> find_piece c l = Some e \<and> \<not> flushing e \<and> ready_to_flush e
          \<and> (find_piece c' l = None \<longleftrightarrow> piece_hash_returned e)"
  proof
    fix y assume "y \<in> set calls"
    with d(1) have "\<exists>l e. y = (l, blocks e, hasher_cursor e) \<and> l \<in> set rest
          \<and> find_piece c l = Some e \<and> \<not> flushing e \<and> ready_to_flush e
          \<and> (find_piece c' l = None \<longleftrightarrow> piece_hash_returned e)" by (rule bspec)
    then obtain l e' where "y = (l, blocks e', hasher_cursor e')" "l \<in> set rest"
        "find_piece c l = Some e'" "\<not> flushing e'" "ready_to_flush e'"
        "find_piece c' l = None \<longleftrightarrow> piece_hash_returned e'"
      by (elim exE conjE) (rule that)
    then show "\<exists>l e. y = (l, blocks e, hasher_cursor e) \<and> l \<in> set (x # rest)
          \<and> find_piece c l = Some e \<and> \<not> flushing e \<and> ready_to_flush e
          \<and> (find_piece c' l = None \<longleftrightarrow> piece_hash_returned e)"
      by (intro exI[of _ l] exI[of _ e']) simp
  qed
  show "\<forall>l. l \<notin> fst ` set calls \<longrightarrow> find_piece c' l = find_piece c l" by (rule d(2))
  show "\<forall>y \<in> set (butlast calls). \<not> short_count f y" by (rule d(3))
  show "r \<longrightarrow> calls \<noteq> [] \<and> short_count f (last calls)" by (rule d(4))
  show "\<not> r \<longrightarrow> (\<forall>y \<in> set calls. \<not> short_count f y)
            \<and> (\<forall>l \<in> set (x # rest). \<forall>e. find_piece c l = Some e \<and> \<not> flushing e \<and> ready_to_flush e
                  \<longrightarrow> l \<in> fst ` set calls)"
  proof (intro impI conjI ballI allI)
    fix y assume "\<not> r" "y \<in> set calls"
    with d(5) show "\<not> short_count f y" by blast
  next
    fix l e' assume nr: "\<not> r" and l: "l \<in> set (x # rest)"
      and a: "find_piece c l = Some e' \<and> \<not> flushing e' \<and> ready_to_flush e'"
    from a fe have "l \<noteq> x" by auto
    with l have "l \<in> set rest" by simp
    with d(5) nr a show "l \<in> fst ` set calls" by blast
  qed
qed

lemma post_stop:
  assumes "ready_first c" "view2 c = pre @ x # rest" "find_piece c x = Some e"
    "\<not> ready_to_flush e"
  shows "phase_a_post f c (x # rest) False c []"
proof -
  have "\<And>l e'. l \<in> set rest \<Longrightarrow> find_piece c l = Some e' \<Longrightarrow> \<not> ready_to_flush e'"
  proof -
    fix l e' assume l: "l \<in> set rest" and fe: "find_piece c l = Some e'"
    from assms(1,2) have "sorted_wrt (\<lambda>a b. \<not> greater_bool (key2 c b) (key2 c a)) (pre @ x # rest)"
      by (simp add: ready_first_def)
    with l have "\<not> greater_bool (key2 c l) (key2 c x)"
      by (auto simp: sorted_wrt_append)
    with assms(3,4) fe show "\<not> ready_to_flush e'"
      by (simp add: greater_bool_def key2_def find_piece_def)
  qed
  then have "\<forall>l \<in> set (x # rest). \<forall>e'. find_piece c l = Some e' \<and> \<not> flushing e'
      \<and> ready_to_flush e' \<longrightarrow> l \<in> fst ` set []"
    using assms(3,4) by auto
  then show ?thesis by (intro phase_a_postI) simp_all
qed

lemma post_single:
  assumes "find_piece c x = Some e" "\<not> flushing e" "ready_to_flush e"
    "\<forall>l. l \<noteq> x \<longrightarrow> find_piece c4 l = find_piece c l"
    "find_piece c4 x = None \<longleftrightarrow> piece_hash_returned e"
    "short_count f (x, blocks e, hasher_cursor e)"
  shows "phase_a_post f c (x # rest) True c4 [(x, blocks e, hasher_cursor e)]"
proof (rule phase_a_postI)
  show "\<forall>y \<in> set [(x, blocks e, hasher_cursor e)]. \<exists>l e. y = (l, blocks e, hasher_cursor e)
          \<and> l \<in> set (x # rest)
          \<and> find_piece c l = Some e \<and> \<not> flushing e \<and> ready_to_flush e
          \<and> (find_piece c4 l = None \<longleftrightarrow> piece_hash_returned e)"
    using assms(1,2,3,5) by (intro ballI exI[of _ x] exI[of _ e]) simp
  show "\<forall>l. l \<notin> fst ` set [(x, blocks e, hasher_cursor e)] \<longrightarrow> find_piece c4 l = find_piece c l"
    using assms(4) by simp
  show "\<forall>y \<in> set (butlast [(x, blocks e, hasher_cursor e)]). \<not> short_count f y" by simp
  show "True \<longrightarrow> [(x, blocks e, hasher_cursor e)] \<noteq> []
      \<and> short_count f (last [(x, blocks e, hasher_cursor e)])"
    using assms(6) by simp
  show "\<not> True \<longrightarrow> (\<forall>y \<in> set [(x, blocks e, hasher_cursor e)]. \<not> short_count f y)
            \<and> (\<forall>l \<in> set (x # rest). \<forall>e'. find_piece c l = Some e' \<and> \<not> flushing e' \<and> ready_to_flush e'
                  \<longrightarrow> l \<in> fst ` set [(x, blocks e, hasher_cursor e)])"
    by simp
qed

lemma post_cons:
  assumes p: "phase_a_post f c4 rest r c' calls" and nin: "x \<notin> set rest"
    and fe: "find_piece c x = Some e" "\<not> flushing e" "ready_to_flush e"
    and fr: "\<forall>l. l \<noteq> x \<longrightarrow> find_piece c4 l = find_piece c l"
    and er: "find_piece c4 x = None \<longleftrightarrow> piece_hash_returned e"
    and ns: "\<not> short_count f (x, blocks e, hasher_cursor e)"
  shows "phase_a_post f c (x # rest) r c' ((x, blocks e, hasher_cursor e) # calls)"
proof -
  from p have p1: "\<forall>y \<in> set calls. \<exists>l e. y = (l, blocks e, hasher_cursor e) \<and> l \<in> set rest
          \<and> find_piece c4 l = Some e \<and> \<not> flushing e \<and> ready_to_flush e
          \<and> (find_piece c' l = None \<longleftrightarrow> piece_hash_returned e)"
    and p2: "\<forall>l. l \<notin> fst ` set calls \<longrightarrow> find_piece c' l = find_piece c4 l"
    and p3: "\<forall>y \<in> set (butlast calls). \<not> short_count f y"
    and p4: "r \<longrightarrow> calls \<noteq> [] \<and> short_count f (last calls)"
    and p5: "\<not> r \<longrightarrow> (\<forall>y \<in> set calls. \<not> short_count f y)
            \<and> (\<forall>l \<in> set rest. \<forall>e. find_piece c4 l = Some e \<and> \<not> flushing e \<and> ready_to_flush e
                  \<longrightarrow> l \<in> fst ` set calls)"
    using phase_a_postD[OF p] by blast+
  have xc: "x \<notin> fst ` set calls" using p1 nin by force
  let ?calls = "(x, blocks e, hasher_cursor e) # calls"
  have q1: "\<forall>y \<in> set ?calls. \<exists>l e. y = (l, blocks e, hasher_cursor e) \<and> l \<in> set (x # rest)
          \<and> find_piece c l = Some e \<and> \<not> flushing e \<and> ready_to_flush e
          \<and> (find_piece c' l = None \<longleftrightarrow> piece_hash_returned e)"
  proof
    fix y assume "y \<in> set ?calls"
    then consider "y = (x, blocks e, hasher_cursor e)" | "y \<in> set calls" by auto
    then show "\<exists>l e. y = (l, blocks e, hasher_cursor e) \<and> l \<in> set (x # rest)
          \<and> find_piece c l = Some e \<and> \<not> flushing e \<and> ready_to_flush e
          \<and> (find_piece c' l = None \<longleftrightarrow> piece_hash_returned e)"
    proof cases
      case 1
      from p2 xc have "find_piece c' x = find_piece c4 x" by simp
      with 1 fe er show ?thesis by (intro exI[of _ x] exI[of _ e]) simp
    next
      case 2
      with p1 have "\<exists>l e. y = (l, blocks e, hasher_cursor e) \<and> l \<in> set rest
          \<and> find_piece c4 l = Some e \<and> \<not> flushing e \<and> ready_to_flush e
          \<and> (find_piece c' l = None \<longleftrightarrow> piece_hash_returned e)" by (rule bspec)
      then obtain l e' where y: "y = (l, blocks e', hasher_cursor e')" "l \<in> set rest"
        "find_piece c4 l = Some e'" "\<not> flushing e'" "ready_to_flush e'"
        "find_piece c' l = None \<longleftrightarrow> piece_hash_returned e'"
        by (elim exE conjE) (rule that)
      from y(2) nin have "l \<noteq> x" by auto
      with fr y(3) have "find_piece c l = Some e'" by simp
      with y show ?thesis by (intro exI[of _ l] exI[of _ e']) simp
    qed
  qed
  have q2: "\<forall>l. l \<notin> fst ` set ?calls \<longrightarrow> find_piece c' l = find_piece c l"
    using p2 fr by auto
  have q3: "\<forall>y \<in> set (butlast ?calls). \<not> short_count f y"
    using p3 ns by (cases calls) auto
  have q4: "r \<longrightarrow> ?calls \<noteq> [] \<and> short_count f (last ?calls)"
    using p4 by auto
  have q5: "\<not> r \<longrightarrow> (\<forall>y \<in> set ?calls. \<not> short_count f y)
            \<and> (\<forall>l \<in> set (x # rest). \<forall>e. find_piece c l = Some e \<and> \<not> flushing e \<and> ready_to_flush e
                  \<longrightarrow> l \<in> fst ` set ?calls)"
  proof (intro impI conjI ballI allI)
    fix y assume "\<not> r" "y \<in> set ?calls"
    with p5 ns show "\<not> short_count f y" by auto
  next
    fix l e' assume nr: "\<not> r" and l: "l \<in> set (x # rest)"
      and a: "find_piece c l = Some e' \<and> \<not> flushing e' \<and> ready_to_flush e'"
    show "l \<in> fst ` set ?calls"
    proof (cases "l = x")
      case True
      then show ?thesis by simp
    next
      case False
      with l have lr: "l \<in> set rest" by simp
      from False fr a have "find_piece c4 l = Some e' \<and> \<not> flushing e' \<and> ready_to_flush e'" by simp
      with p5 nr lr have "l \<in> fst ` set calls" by blast
      then show ?thesis by auto
    qed
  qed
  from q1 q2 q3 q4 q5 show ?thesis by (rule phase_a_postI)
qed

lemma log_writer_append:
  "log_writer loc bs n t = t\<lparr>writer_calls := writer_calls t @ [(loc, bs, n)]\<rparr>"
  by (simp add: log_writer_def)

lemma phase_a_end: "phase_a f None s = Some (False, s)"
  by (subst phase_a_unfold) simp

lemma phase_a_skip:
  "find_piece (fst s) x = Some e \<Longrightarrow> flushing e \<Longrightarrow>
     phase_a f (Some x) s = phase_a f (next_in (view2 (fst s)) x) s"
  by (subst phase_a_unfold) simp

lemma phase_a_stop:
  "find_piece (fst s) x = Some e \<Longrightarrow> \<not> flushing e \<Longrightarrow> \<not> ready_to_flush e \<Longrightarrow>
     phase_a f (Some x) s = Some (False, s)"
  by (subst phase_a_unfold) simp

lemma phase_a_step:
  "find_piece (fst s) x = Some e \<Longrightarrow> \<not> flushing e \<Longrightarrow> ready_to_flush e \<Longrightarrow>
   phase_a_pass f x e s = Some (count, n, c3, t3) \<Longrightarrow> find_piece c3 x = Some e3 \<Longrightarrow>
     phase_a f (Some x) s =
       (if count < n then Some (True, if piece_hash_returned e3 then erase x c3 else c3, t3)
        else phase_a f (next_in (view2 c3) x)
               (if piece_hash_returned e3 then erase x c3 else c3, t3))"
  by (subst phase_a_unfold) (simp add: Let_def)

lemma phase_a_loop:
  assumes hon: "sets_bits_on_jobs f"
  shows "phase_a_inv c \<Longrightarrow> view2 c = pre @ rest \<Longrightarrow>
     \<exists>r c' calls. phase_a f (begin_of rest) (c, t)
          = Some (r, c', t\<lparr>writer_calls := writer_calls t @ calls\<rparr>)
        \<and> phase_a_post f c rest r c' calls"
proof (induction rest arbitrary: pre c t)
  case Nil
  have "phase_a f (begin_of []) (c, t) = Some (False, c, t\<lparr>writer_calls := writer_calls t @ []\<rparr>)"
    by (simp add: begin_of_def phase_a_end)
  moreover have "phase_a_post f c [] False c []"
    by (rule phase_a_postI) simp_all
  ultimately show ?case by (intro exI[of _ False] exI[of _ c] exI[of _ "[]"]) simp
next
  case (Cons x rest)
  note inv = Cons.prems(1) and v = Cons.prems(2)
  from inv have d: "distinct (view2 c)" and rf: "ready_first c"
    by (simp_all add: phase_a_inv_def)
  from inv v obtain e where fe: "find_piece c x = Some e"
    by (auto simp: phase_a_inv_def)
  have nx: "next_in (view2 c) x = begin_of rest"
    using d v next_in_mid[of pre x rest] by simp
  have bg: "begin_of (x # rest) = Some x" by (simp add: begin_of_def)
  have xr: "x \<notin> set rest" "x \<notin> set pre" using d v by auto
  show ?case
  proof (cases "flushing e")
    case True
    have v': "view2 c = (pre @ [x]) @ rest" using v by simp
    from Cons.IH[OF inv v', of t] obtain r c' calls where
      r: "phase_a f (begin_of rest) (c, t) = Some (r, c', t\<lparr>writer_calls := writer_calls t @ calls\<rparr>)"
      and p: "phase_a_post f c rest r c' calls" by blast
    have "phase_a f (begin_of (x # rest)) (c, t) = phase_a f (begin_of rest) (c, t)"
      using phase_a_skip[of "(c, t)" x e f] fe True nx bg by simp
    with r post_skip[OF p fe True] show ?thesis
      by (intro exI[of _ r] exI[of _ c'] exI[of _ calls]) simp
  next
    case nf: False
    show ?thesis
    proof (cases "ready_to_flush e")
      case False
      have "phase_a f (begin_of (x # rest)) (c, t)
          = Some (False, c, t\<lparr>writer_calls := writer_calls t @ []\<rparr>)"
        using phase_a_stop[of "(c, t)" x e f] fe nf False bg by simp
      with post_stop[OF rf v fe False, of f] show ?thesis
        by (intro exI[of _ False] exI[of _ c] exI[of _ "[]"]) simp
    next
      case rd: True
      let ?call = "(x, blocks e, hasher_cursor e)"
      let ?t1 = "log_writer x (blocks e) (hasher_cursor e) t"
      let ?cnt = "snd (f (blocks e) (hasher_cursor e))"
      from phase_a_pass_effect[OF inv hon fe nf rd, of t] obtain c3 e3 where
        pa: "phase_a_pass f x e (c, t) = Some (?cnt, blocks_in_piece e, c3, ?t1)"
        and v3: "view2 c3 = view2 c" and f3: "find_piece c3 x = Some e3"
        and ph: "piece_hash_returned e3 = piece_hash_returned e"
        and fr3: "\<forall>l. l \<noteq> x \<longrightarrow> find_piece c3 l = find_piece c l"
        and inv3: "phase_a_inv c3" by blast
      let ?c4 = "if piece_hash_returned e3 then erase x c3 else c3"
      have st: "phase_a f (begin_of (x # rest)) (c, t) =
          (if ?cnt < blocks_in_piece e then Some (True, ?c4, ?t1)
           else phase_a f (begin_of rest) (?c4, ?t1))"
        using phase_a_step[of "(c, t)" x e f ?cnt "blocks_in_piece e" c3 ?t1 e3]
          fe nf rd pa f3 bg nx v3 by simp
      have fr4: "\<forall>l. l \<noteq> x \<longrightarrow> find_piece ?c4 l = find_piece c l"
        using fr3 by (simp add: find_piece_erase)
      have er4: "find_piece ?c4 x = None \<longleftrightarrow> piece_hash_returned e"
        using f3 ph by (simp add: find_piece_erase)
      have sc: "short_count f ?call \<longleftrightarrow> ?cnt < blocks_in_piece e"
        by (simp add: short_count_def blocks_in_piece_def)
      show ?thesis
      proof (cases "?cnt < blocks_in_piece e")
        case True
        with st have "phase_a f (begin_of (x # rest)) (c, t)
            = Some (True, ?c4, t\<lparr>writer_calls := writer_calls t @ [?call]\<rparr>)"
          by (simp add: log_writer_append)
        moreover have "phase_a_post f c (x # rest) True ?c4 [?call]"
          using post_single[OF fe nf rd fr4 er4] sc True by simp
        ultimately show ?thesis
          by (intro exI[of _ True] exI[of _ ?c4] exI[of _ "[?call]"]) simp
      next
        case False
        have inv4: "phase_a_inv ?c4" using inv3 by (simp add: phase_a_inv_erase)
        have v4: "view2 ?c4 = (if piece_hash_returned e3 then pre else pre @ [x]) @ rest"
          using v3 v xr by (simp add: remove1_append)
        from Cons.IH[OF inv4 v4, of ?t1] obtain r c' calls where
          r: "phase_a f (begin_of rest) (?c4, ?t1)
              = Some (r, c', ?t1\<lparr>writer_calls := writer_calls ?t1 @ calls\<rparr>)"
          and p: "phase_a_post f ?c4 rest r c' calls" by blast
        have "?t1\<lparr>writer_calls := writer_calls ?t1 @ calls\<rparr>
            = t\<lparr>writer_calls := writer_calls t @ ?call # calls\<rparr>"
          by (simp add: log_writer_def)
        with st False r have "phase_a f (begin_of (x # rest)) (c, t)
            = Some (r, c', t\<lparr>writer_calls := writer_calls t @ ?call # calls\<rparr>)"
          by simp
        moreover have "phase_a_post f c (x # rest) r c' (?call # calls)"
          using post_cons[OF p xr(1) fe nf rd fr4 er4] sc False by simp
        ultimately show ?thesis
          by (intro exI[of _ r] exI[of _ c'] exI[of _ "?call # calls"]) simp
      qed
    qed
  qed
qed

subsection \<open>Per-storage teardown and phase B\<close>











lemma sets_bits_write_head: "sets_bits_on_jobs write_head"
  by (auto simp: sets_bits_on_jobs_def write_head_def get_bit_def split: list.splits if_splits)




subsection \<open>Phase A\<close>

text \<open>
  C9. Phase A of \<open>flush_to_disk\<close> is to pass every piece that is ready to flush and
  not flushing to the writer, whatever \<open>target_blocks\<close> is.  It does not.  Two
  one-block pieces are inserted, so both are ready, not flushing, and first in index 2;
  a call with target 5 passes both to the writer.  Now let a clear job be parked on the
  first piece while \<open>hash_piece\<close> holds it.  Phase A passes the first piece to the
  writer and runs the parked clear, which makes the piece not ready and re-links it
  behind the second piece in index 2; \<open>++piece_iter\<close> then reaches the end of the
  index, and the loop ends without the second piece.  With target 5 the call returns
  with the second piece still ready, not flushing and holding its write job; with
  target 0 the third loop flushes it.  The same happens when the clear job is parked by
  another thread during the writer's call on the first piece.
\<close>

theorem phase_a_skips_ready_piece:
  "Option.bind (run two_ready empty_cache) (ready_state ex_loc_b) = Some (True, False, 1)
   \<and> Option.bind (run two_ready empty_cache) (flushed_by nobody write_all 5)
       = Some [ex_loc, ex_loc_b]
   \<and> Option.bind (run (two_ready @ clear_parked) empty_cache) (ready_state ex_loc_b)
       = Some (True, False, 1)
   \<and> Option.bind (run (two_ready @ clear_parked) empty_cache) (phase_a_calls nobody write_all)
       = Some [ex_loc]
   \<and> Option.bind (run (two_ready @ clear_parked) empty_cache) (flushed_by nobody write_all 5)
       = Some [ex_loc]
   \<and> Option.bind (run (two_ready @ clear_parked) empty_cache) (left_by nobody write_all 5 ex_loc_b)
       = Some (True, False, 1)
   \<and> Option.bind (run (two_ready @ clear_parked) empty_cache) (flushed_by nobody write_all 0)
       = Some [ex_loc, ex_loc_b]
   \<and> Option.bind (run two_ready empty_cache) (phase_a_calls (clear_during ex_loc 9) write_all)
       = Some [ex_loc]
   \<and> Option.bind (run two_ready empty_cache) (flushed_by (clear_during ex_loc 9) write_all 5)
       = Some [ex_loc]
   \<and> Option.bind (run two_ready empty_cache) (left_by (clear_during ex_loc 9) write_all 5 ex_loc_b)
       = Some (True, False, 1)"
  by code_simp

text \<open>
  Phase A when no clear job is parked.  Let phase A start in a cache whose index 2 is
  in order and where no piece that is not flushing has a clear job parked, with a writer
  that sets bits only on blocks holding a write job, and with no other thread in the
  cache.  Then the first loop of \<open>flush_to_disk\<close> ends, and what it does is the same
  for every \<open>target_blocks\<close>: each call to the writer is for a piece that was ready and
  not flushing, with its whole block array and its hasher cursor, and that piece is gone
  from the container afterwards exactly when its \<open>piece_hash_returned\<close> is set; pieces
  without a call are untouched; only the last call can have returned less than the
  number of blocks of the piece, and if it did, \<open>flush_to_disk\<close> returns with the
  cache as that pass left it, whatever the target; otherwise every piece of index 2 that
  was ready and not flushing has been passed to the writer, and \<open>flush_to_disk\<close> goes
  on to its second loop.
\<close>

theorem phase_a_without_parked_clear:
  assumes "sets_bits_on_jobs f" "phase_a_inv c"
  shows "\<exists>r c' t'. phase_a f (begin_of (view2 c)) (c, no_trace) = Some (r, c', t')
     \<and> clear_calls t' = []
     \<and> (\<forall>x \<in> set (writer_calls t'). \<exists>l e. x = (l, blocks e, hasher_cursor e)
           \<and> l \<in> set (view2 c) \<and> find_piece c l = Some e \<and> \<not> flushing e \<and> ready_to_flush e
           \<and> (find_piece c' l = None \<longleftrightarrow> piece_hash_returned e))
     \<and> (\<forall>l. l \<notin> fst ` set (writer_calls t') \<longrightarrow> find_piece c' l = find_piece c l)
     \<and> (\<forall>x \<in> set (butlast (writer_calls t')). \<not> short_count f x)
     \<and> (r \<longrightarrow> writer_calls t' \<noteq> [] \<and> short_count f (last (writer_calls t')))
     \<and> (\<not> r \<longrightarrow> (\<forall>x \<in> set (writer_calls t'). \<not> short_count f x)
           \<and> (\<forall>l \<in> set (view2 c). \<forall>e. find_piece c l = Some e \<and> \<not> flushing e
                 \<and> ready_to_flush e \<longrightarrow> l \<in> fst ` set (writer_calls t')))
     \<and> (\<forall>target_blocks. flush_to_disk f target_blocks c =
           (if r then Some (c', t')
            else (case phase_b f target_blocks (begin_of (view1 c')) (c', t') of
                    None \<Rightarrow> None
                  | Some (returned, s2) \<Rightarrow>
                      if returned then Some s2
                      else phase_c f target_blocks (begin_of (view0 (fst s2))) s2)))"
proof -
  have v: "view2 c = [] @ view2 c" by simp
  from phase_a_loop[OF assms(1,2) v, of no_trace] obtain r c' calls where
    r: "phase_a f (begin_of (view2 c)) (c, no_trace)
          = Some (r, c', no_trace\<lparr>writer_calls := writer_calls no_trace @ calls\<rparr>)"
    and p: "phase_a_post f c (view2 c) r c' calls" by blast
  let ?t = "no_trace\<lparr>writer_calls := writer_calls no_trace @ calls\<rparr>"
  have w: "writer_calls ?t = calls" "clear_calls ?t = []" by (simp_all add: no_trace_def)
  note d = phase_a_postD[OF p]
  have fl: "\<forall>target_blocks. flush_to_disk f target_blocks c =
           (if r then Some (c', ?t)
            else (case phase_b f target_blocks (begin_of (view1 c')) (c', ?t) of
                    None \<Rightarrow> None
                  | Some (returned, s2) \<Rightarrow>
                      if returned then Some s2
                      else phase_c f target_blocks (begin_of (view0 (fst s2))) s2))"
    using r by (simp add: flush_to_disk_eq)
  show ?thesis
    apply (rule exI[of _ r], rule exI[of _ c'], rule exI[of _ ?t])
    apply (subst w)+
    apply (intro conjI)
    apply (rule r)
    apply (rule refl)
    apply (rule d(1))
    apply (rule d(2))
    apply (rule d(3))
    apply (rule d(4))
    apply (rule d(5))
    apply (rule fl)
    done
qed

lemma phase_a_inv_ex_returned: "phase_a_inv (cache_of ex_returned)"
proof -
  have p: "piece ex_returned = ex_loc" by (simp add: ex_returned_def)
  have v: "view2 (cache_of ex_returned) = [ex_loc]"
    by (simp add: cache_of_def insert_piece_def Let_def empty_cache_def p)
  have e: "\<not> flushing ex_returned" "clear_piece ex_returned = None"
    "compute_ready_to_flush (blocks ex_returned)"
    by (simp_all add: ex_returned_def ex_hashed_def ex_entry_def ex_blocks_def
        new_piece_entry_def empty_block_def)
  show ?thesis
    unfolding phase_a_inv_def
    using e by (auto simp: v find_piece_cache_of p ready_first_def split: if_splits)
qed

text \<open>A ready piece whose hash was returned, and a writer that persists one of its two
  blocks: the call returns from phase A, for a target of 7 as for any other.\<close>

theorem phase_a_without_parked_clear_example:
  "\<exists>c' t'. phase_a write_head (begin_of (view2 (cache_of ex_returned)))
               (cache_of ex_returned, no_trace) = Some (True, c', t')
     \<and> flush_to_disk write_head 7 (cache_of ex_returned) = Some (c', t')"
proof -
  from phase_a_without_parked_clear[OF sets_bits_write_head phase_a_inv_ex_returned]
  obtain r c' t' where
    a: "phase_a write_head (begin_of (view2 (cache_of ex_returned)))
               (cache_of ex_returned, no_trace) = Some (r, c', t')"
    and b: "\<forall>target_blocks. flush_to_disk write_head target_blocks (cache_of ex_returned) =
           (if r then Some (c', t')
            else (case phase_b write_head target_blocks (begin_of (view1 c')) (c', t') of
                    None \<Rightarrow> None
                  | Some (returned, s2) \<Rightarrow>
                      if returned then Some s2
                      else phase_c write_head target_blocks (begin_of (view0 (fst s2))) s2))"
    by blast
  have "map_option fst (phase_a write_head (begin_of (view2 (cache_of ex_returned)))
               (cache_of ex_returned, no_trace)) = Some True"
    by code_simp
  with a have "r" by simp
  with a b show ?thesis by simp
qed

end
